theory Spec2Isabelle
  imports Main "HOL-Library.Word" "HOL-Library.Signed_Division"
begin

unbundle bit_operations_syntax

section \<open>Data model\<close>

text \<open>
  The theory embeds \<^verbatim>\<open>src/log_database_proxy_model.cpp\<close>: the class
  \<^verbatim>\<open>LogDatabaseProxyModel\<close>, a Qt list model that keeps a filtered view
  (\<^verbatim>\<open>msg_mapping_\<close>) over the log of a \<^verbatim>\<open>LogDatabase\<close>.
\<close>

subsection \<open>Records of the store\<close>

text \<open>\<^verbatim>\<open>ros::Time\<close>: two unsigned 32-bit fields.\<close>

record rostime =
  sec :: "32 word"
  nsec :: "32 word"

text \<open>\<^verbatim>\<open>ros::Duration\<close>: two signed 32-bit fields, read here as integers.\<close>

record rosduration =
  dsec :: int
  dnsec :: int

text \<open>
  \<^verbatim>\<open>LogEntry\<close>, with the fields the source file reads: \<^verbatim>\<open>stamp\<close>,
  \<^verbatim>\<open>level\<close> (tested with \<^verbatim>\<open>&\<close> against the \<^verbatim>\<open>uint8_t\<close> mask),
  \<^verbatim>\<open>node\<close>, \<^verbatim>\<open>file\<close> and \<^verbatim>\<open>function\<close> (both words are reserved here, hence
  \<open>file_name\<close> and \<open>function_name\<close>), \<^verbatim>\<open>line\<close>, \<^verbatim>\<open>msg\<close> and \<^verbatim>\<open>seq\<close>.
\<close>

record LogEntry =
  stamp :: rostime
  level :: "8 word"
  node :: string
  file_name :: string
  function_name :: string
  line :: "32 word"
  msg :: string
  seq :: "32 word"

text \<open>
  The \<^verbatim>\<open>LogDatabase\<close> behind the pointer \<^verbatim>\<open>db_\<close>: the deque returned by
  \<^verbatim>\<open>db_->log()\<close> and the time returned by \<^verbatim>\<open>db_->minTime()\<close>.
\<close>

record LogDatabase =
  log :: "LogEntry list"
  minTime :: rostime

subsection \<open>Operations outside the source file, taken as parameters\<close>

text \<open>
  The Qt and ROS operations whose results the source file only consumes, and the one
  method of \<^verbatim>\<open>LogDatabase\<close> that it calls for its effect, are parameters of the
  model; every theorem below holds for all of them.
  \<^item> \<open>contains_ci m t\<close> is \<^verbatim>\<open>m.contains(t, Qt::CaseInsensitive)\<close> on \<^verbatim>\<open>QString\<close>;
  \<^item> a \<^verbatim>\<open>QRegExp\<close> member is modelled by its pattern string: \<open>regexp_isValid p\<close> is
    \<^verbatim>\<open>isValid()\<close>, \<open>regexp_indexIn p m\<close> is \<^verbatim>\<open>indexIn(m)\<close> (the position of the first
    match, negative when there is none), and \<^verbatim>\<open>isEmpty()\<close> is \<open>p = []\<close>;
  \<^item> \<open>endsWith_ci f t\<close> is \<^verbatim>\<open>f.endsWith(t, Qt::CaseInsensitive)\<close>;
  \<^item> \<open>time_minus a b\<close> is \<^verbatim>\<open>a - b\<close> on \<^verbatim>\<open>ros::Time\<close>;
  \<^item> \<open>db_clear d\<close> is the database that \<^verbatim>\<open>LogDatabase::clear()\<close> leaves when it is
    called on \<open>d\<close>. Its body is not part of the source file, and nothing is assumed
    about it.
\<close>

record qt_lib =
  contains_ci :: "string \<Rightarrow> string \<Rightarrow> bool"
  regexp_isValid :: "string \<Rightarrow> bool"
  regexp_indexIn :: "string \<Rightarrow> string \<Rightarrow> int"
  endsWith_ci :: "string \<Rightarrow> string \<Rightarrow> bool"
  time_minus :: "rostime \<Rightarrow> rostime \<Rightarrow> rosduration"
  db_clear :: "LogDatabase \<Rightarrow> LogDatabase"

subsection \<open>Signals and model indices\<close>

text \<open>
  \<^verbatim>\<open>QModelIndex\<close> as far as the source reads it: \<^verbatim>\<open>isValid()\<close>, \<^verbatim>\<open>row()\<close> (an
  \<^verbatim>\<open>int\<close>) and \<^verbatim>\<open>parent().isValid()\<close>.
\<close>

record QModelIndex =
  isValid :: bool
  row :: int
  parent_isValid :: bool

text \<open>The default-constructed \<^verbatim>\<open>QModelIndex()\<close>: invalid, row \<open>-1\<close>.\<close>

definition QModelIndex0 :: QModelIndex where
  "QModelIndex0 = \<lparr>isValid = False, row = - 1, parent_isValid = False\<rparr>"

text \<open>
  The calls the model makes on its base class and the signals it emits, recorded in the
  order they happen. The rows of \<^verbatim>\<open>beginInsertRows\<close> are C \<^verbatim>\<open>int\<close>s.
\<close>

datatype event =
    BeginResetModel
  | EndResetModel
  | BeginInsertRows int int
  | EndInsertRows
  | MessagesAdded
  | DataChanged QModelIndex QModelIndex

subsection \<open>The proxy model\<close>

text \<open>
  The members of \<^verbatim>\<open>LogDatabaseProxyModel\<close>, named as in the source without the
  trailing underscore (a name cannot end in one here). \<open>db\<close> holds the database the
  pointer \<^verbatim>\<open>db_\<close> refers to. The two \<^verbatim>\<open>size_t\<close> cursors and the \<^verbatim>\<open>size_t\<close> entries of the deques are
  natural numbers: the source only increments \<^verbatim>\<open>latest_index_\<close> below the size of the
  log and only decrements \<^verbatim>\<open>earliest_index_\<close> when it is not zero, so neither wraps.
  \<open>events\<close> is the trace of emitted signals (most recent last) and \<open>idle_timers\<close> counts
  the queued \<^verbatim>\<open>QTimer::singleShot(0, this, SLOT(processOldMessages()))\<close> calls that
  the event loop has not delivered yet.
\<close>

record proxy =
  db :: LogDatabase
  names :: "string set"
  severity_mask :: "8 word"
  display_absolute_time :: bool
  display_time :: bool
  use_regular_expressions :: bool
  include_strings :: "string list"
  exclude_strings :: "string list"
  include_regexp :: string
  exclude_regexp :: string
  msg_mapping :: "nat list"
  early_mapping :: "nat list"
  earliest_index :: nat
  latest_index :: nat
  events :: "event list"
  idle_timers :: nat

section \<open>The filter predicate\<close>

text \<open>
  \<^verbatim>\<open>testIncludeFilter\<close>: in pattern mode the include pattern must match; in text mode an
  empty list passes, otherwise some include string must occur in the message.
\<close>

definition testIncludeFilter :: "qt_lib \<Rightarrow> proxy \<Rightarrow> LogEntry \<Rightarrow> bool" where
  "testIncludeFilter L s item =
     (if use_regular_expressions s
      then 0 \<le> regexp_indexIn L (include_regexp s) (msg item)
      else if include_strings s = [] then True
      else list_ex (\<lambda>t. contains_ci L (msg item) t) (include_strings s))"

text \<open>
  \<^verbatim>\<open>acceptLogEntry\<close>, with the early returns in the order of the source: severity mask,
  node name, include filter, then the exclude rule.
\<close>

definition acceptLogEntry :: "qt_lib \<Rightarrow> proxy \<Rightarrow> LogEntry \<Rightarrow> bool" where
  "acceptLogEntry L s item =
     (if level item AND severity_mask s = 0 then False
      else if node item \<notin> names s then False
      else if \<not> testIncludeFilter L s item then False
      else if use_regular_expressions s
      then exclude_regexp s = [] \<or> regexp_indexIn L (exclude_regexp s) (msg item) < 0
      else \<not> list_ex (\<lambda>t. contains_ci L (msg item) t) (exclude_strings s))"

section \<open>Row access\<close>

subsection \<open>Formatting\<close>

text \<open>
  What the \<^verbatim>\<open>snprintf\<close> conversions of the source print: \<^verbatim>\<open>%u\<close> and \<^verbatim>\<open>%d\<close> in
  decimal, \<^verbatim>\<open>%0wu\<close> and \<^verbatim>\<open>%0wd\<close> padded with zeros to width \<open>w\<close> (a minus sign
  counts towards the width), \<^verbatim>\<open>%s\<close> up to the first NUL of the C string, and the
  whole output cut to the size of the buffer less the terminator.
\<close>

fun digits :: "nat \<Rightarrow> string" where
  "digits n = (if n < 10 then [char_of (48 + n)] else digits (n div 10) @ [char_of (48 + n mod 10)])"

declare digits.simps [simp del]

definition pad0 :: "nat \<Rightarrow> string \<Rightarrow> string" where
  "pad0 w ds = replicate (w - length ds) (CHR ''0'') @ ds"

definition fmt_u :: "nat \<Rightarrow> string" where
  "fmt_u n = digits n"

definition fmt_0u :: "nat \<Rightarrow> nat \<Rightarrow> string" where
  "fmt_0u w n = pad0 w (digits n)"

definition fmt_d :: "int \<Rightarrow> string" where
  "fmt_d i = (if i < 0 then CHR ''-'' # digits (nat (- i)) else digits (nat i))"

definition fmt_0d :: "nat \<Rightarrow> int \<Rightarrow> string" where
  "fmt_0d w i = (if i < 0 then CHR ''-'' # pad0 (w - 1) (digits (nat (- i))) else pad0 w (digits (nat i)))"

definition c_str :: "string \<Rightarrow> string" where
  "c_str s = takeWhile (\<lambda>c. c \<noteq> CHR 0x00) s"

definition snprintf :: "nat \<Rightarrow> string \<Rightarrow> string" where
  "snprintf n out = take (n - 1) out"

text \<open>
  The level letter of the display role. The constants are those of
  \<^verbatim>\<open>rosgraph_msgs::Log\<close>: DEBUG 1, INFO 2, WARN 4, ERROR 8, FATAL 16.
\<close>

definition level_char :: "8 word \<Rightarrow> char" where
  "level_char l =
     (if l = 1 then CHR ''D''
      else if l = 2 then CHR ''I''
      else if l = 4 then CHR ''W''
      else if l = 8 then CHR ''E''
      else if l = 16 then CHR ''F''
      else CHR ''?'')"

text \<open>
  The \<^verbatim>\<open>stamp\<close> buffer of the display role: absolute time as seconds and nanoseconds,
  or the time since \<^verbatim>\<open>db_->minTime()\<close> as hours, minutes, seconds and milliseconds,
  with the truncating division and remainder of C.
\<close>

definition stamp_text :: "qt_lib \<Rightarrow> proxy \<Rightarrow> LogEntry \<Rightarrow> string" where
  "stamp_text L s item =
     (if display_absolute_time s
      then snprintf 128 (fmt_u (unat (sec (stamp item))) @ ''.'' @ fmt_0u 9 (unat (nsec (stamp item))))
      else
        (let t = time_minus L (stamp item) (minTime (db s));
             secs = dsec t;
             hours = secs sdiv 60 sdiv 60;
             minutes = (secs sdiv 60) smod 60;
             seconds = secs smod 60;
             milliseconds = dnsec t sdiv 1000000
         in snprintf 128 (fmt_d hours @ '':'' @ fmt_0d 2 minutes @ '':'' @ fmt_0d 2 seconds
                          @ '':'' @ fmt_0d 3 milliseconds)))"

definition display_text :: "qt_lib \<Rightarrow> proxy \<Rightarrow> LogEntry \<Rightarrow> string" where
  "display_text L s item =
     (let header =
            (if display_time s
             then snprintf 1024 (''['' @ [level_char (level item)] @ '' '' @ stamp_text L s item @ ''] '')
             else snprintf 1024 (''['' @ [level_char (level item)] @ ''] ''))
      in header @ msg item)"

text \<open>
  The tool tip. Its \<^verbatim>\<open>%d\<close> conversions receive unsigned 32-bit fields, which are read
  as signed.
\<close>

definition tooltip_text :: "LogEntry \<Rightarrow> string" where
  "tooltip_text item =
     snprintf 4096
       (''<p style='' @ [CHR 0x27] @ ''white-space:pre'' @ [CHR 0x27] @ ''>''
        @ ''Timestamp: '' @ fmt_d (sint (sec (stamp item))) @ ''.''
        @ fmt_0d 9 (sint (nsec (stamp item))) @ [CHR 0x0A]
        @ ''Seq: '' @ fmt_d (sint (seq item)) @ [CHR 0x0A]
        @ ''Node: '' @ c_str (node item) @ [CHR 0x0A]
        @ ''Function: '' @ c_str (function_name item) @ [CHR 0x0A]
        @ ''File: '' @ c_str (file_name item) @ [CHR 0x0A]
        @ ''Line: '' @ fmt_d (sint (line item)) @ [CHR 0x0A]
        @ [CHR 0x0A])
     @ msg item @ ''</p>''"

subsection \<open>rowCount, index and data\<close>

datatype role = DisplayRole | ToolTipRole | OtherRole

text \<open>\<^verbatim>\<open>QVariant\<close>: the empty variant \<^verbatim>\<open>QVariant()\<close> or one holding a string.\<close>

datatype QVariant = QVariant_empty | QVariant_string string

text \<open>\<^verbatim>\<open>QVariant::toString()\<close>; the empty variant gives the empty string.\<close>

fun toString :: "QVariant \<Rightarrow> string" where
  "toString QVariant_empty = []"
| "toString (QVariant_string t) = t"

text \<open>
  A \<^verbatim>\<open>size_t\<close> converted to a 32-bit \<^verbatim>\<open>int\<close>: the value modulo \<open>2 ^ 32\<close>, read
  as two's complement. Below \<open>2 ^ 31\<close> it is the value itself.
\<close>

definition int_of_size_t :: "nat \<Rightarrow> int" where
  "int_of_size_t n = (int n + 2 ^ 31) mod 2 ^ 32 - 2 ^ 31"

text \<open>
  \<^verbatim>\<open>rowCount(parent)\<close> returns an \<^verbatim>\<open>int\<close>: zero under a valid parent, otherwise
  \<^verbatim>\<open>msg_mapping_.size()\<close> narrowed to \<^verbatim>\<open>int\<close>.
\<close>

definition rowCount :: "proxy \<Rightarrow> QModelIndex \<Rightarrow> int" where
  "rowCount s parent = (if isValid parent then 0 else int_of_size_t (length (msg_mapping s)))"

text \<open>
  \<^verbatim>\<open>index(row)\<close> is inherited from \<^verbatim>\<open>QAbstractListModel\<close>: a valid index without a
  parent when \<^verbatim>\<open>hasIndex(row, 0)\<close>, that is \<open>0 \<le> row < rowCount\<close>, and
  \<^verbatim>\<open>QModelIndex()\<close> otherwise.
\<close>

definition index :: "proxy \<Rightarrow> int \<Rightarrow> QModelIndex" where
  "index s r =
     (if 0 \<le> r \<and> r < rowCount s QModelIndex0
      then \<lparr>isValid = True, row = r, parent_isValid = False\<rparr>
      else QModelIndex0)"

text \<open>
  \<^verbatim>\<open>operator[]\<close> of \<^verbatim>\<open>std::deque\<close> does not check its index; reading outside the
  deque is undefined behaviour, which the model reports as \<open>None\<close>.
\<close>

definition deque_at :: "'a list \<Rightarrow> nat \<Rightarrow> 'a option" where
  "deque_at xs i = (if i < length xs then Some (xs ! i) else None)"

text \<open>
  An \<^verbatim>\<open>int\<close> compared with, or converted to, a 64-bit \<^verbatim>\<open>size_t\<close>: the value
  modulo \<open>2 ^ 64\<close>, so that \<open>-1\<close> becomes the largest \<^verbatim>\<open>size_t\<close>.
\<close>

definition size_t_of_int :: "int \<Rightarrow> nat" where
  "size_t_of_int i = nat (i mod 2 ^ 64)"

text \<open>
  \<^verbatim>\<open>data(index, role)\<close>. The guard returns the empty variant only when the index has a
  valid parent and its row is not below the size of the view; otherwise the view and the
  log are read with unchecked \<^verbatim>\<open>operator[]\<close>. \<open>None\<close> is undefined behaviour.
\<close>

definition data :: "qt_lib \<Rightarrow> proxy \<Rightarrow> QModelIndex \<Rightarrow> role \<Rightarrow> QVariant option" where
  "data L s idx rl =
     (if parent_isValid idx \<and> length (msg_mapping s) \<le> size_t_of_int (row idx)
      then Some QVariant_empty
      else
        (case deque_at (msg_mapping s) (size_t_of_int (row idx)) of
           None \<Rightarrow> None
         | Some k \<Rightarrow>
             (case deque_at (log (db s)) k of
                None \<Rightarrow> None
              | Some item \<Rightarrow>
                  (case rl of
                     DisplayRole \<Rightarrow> Some (QVariant_string (display_text L s item))
                   | ToolTipRole \<Rightarrow> Some (QVariant_string (tooltip_text item))
                   | OtherRole \<Rightarrow> Some QVariant_empty))))"

definition isIncludeValid :: "qt_lib \<Rightarrow> proxy \<Rightarrow> bool" where
  "isIncludeValid L s =
     (if use_regular_expressions s \<and> \<not> regexp_isValid L (include_regexp s) then False else True)"

definition isExcludeValid :: "qt_lib \<Rightarrow> proxy \<Rightarrow> bool" where
  "isExcludeValid L s =
     (if use_regular_expressions s \<and> \<not> regexp_isValid L (exclude_regexp s) then False else True)"

section \<open>View maintenance\<close>

definition emit :: "event \<Rightarrow> proxy \<Rightarrow> proxy" where
  "emit e s = s\<lparr>events := events s @ [e]\<rparr>"

text \<open>
  \<^verbatim>\<open>scheduleIdleProcessing\<close>: queue one more call of \<^verbatim>\<open>processOldMessages\<close> while
  older entries remain.
\<close>

definition scheduleIdleProcessing :: "proxy \<Rightarrow> proxy" where
  "scheduleIdleProcessing s =
     (if 0 < earliest_index s then s\<lparr>idle_timers := idle_timers s + 1\<rparr> else s)"

definition reset :: "proxy \<Rightarrow> proxy" where
  "reset s =
     (let s1 = emit BeginResetModel s;
          s2 = s1\<lparr>msg_mapping := []\<rparr>;
          s3 = s2\<lparr>early_mapping := []\<rparr>;
          s4 = s3\<lparr>earliest_index := length (log (db s3))\<rparr>;
          s5 = s4\<lparr>latest_index := earliest_index s4\<rparr>;
          s6 = emit EndResetModel s5
      in scheduleIdleProcessing s6)"

subsection \<open>Setters\<close>

definition setNodeFilter :: "string set \<Rightarrow> proxy \<Rightarrow> proxy" where
  "setNodeFilter ns s = reset (s\<lparr>names := ns\<rparr>)"

definition setSeverityFilter :: "8 word \<Rightarrow> proxy \<Rightarrow> proxy" where
  "setSeverityFilter m s = reset (s\<lparr>severity_mask := m\<rparr>)"

definition setAbsoluteTime :: "bool \<Rightarrow> proxy \<Rightarrow> proxy" where
  "setAbsoluteTime absolute s =
     (if absolute = display_absolute_time s then s
      else
        (let s1 = s\<lparr>display_absolute_time := absolute\<rparr>
         in if display_time s1 \<and> msg_mapping s1 \<noteq> []
            then emit (DataChanged (index s1 0) (index s1 (int_of_size_t (length (msg_mapping s1))))) s1
            else s1))"

definition setDisplayTime :: "bool \<Rightarrow> proxy \<Rightarrow> proxy" where
  "setDisplayTime display s =
     (if display = display_time s then s
      else
        (let s1 = s\<lparr>display_time := display\<rparr>
         in if msg_mapping s1 \<noteq> []
            then emit (DataChanged (index s1 0) (index s1 (int_of_size_t (length (msg_mapping s1))))) s1
            else s1))"

definition setUseRegularExpressions :: "bool \<Rightarrow> proxy \<Rightarrow> proxy" where
  "setUseRegularExpressions useRegexps s =
     (if useRegexps = use_regular_expressions s then s
      else reset (s\<lparr>use_regular_expressions := useRegexps\<rparr>))"

definition setIncludeFilters :: "string list \<Rightarrow> proxy \<Rightarrow> proxy" where
  "setIncludeFilters l s = reset (s\<lparr>include_strings := l\<rparr>)"

definition setExcludeFilters :: "string list \<Rightarrow> proxy \<Rightarrow> proxy" where
  "setExcludeFilters l s = reset (s\<lparr>exclude_strings := l\<rparr>)"

definition setIncludeRegexpPattern :: "string \<Rightarrow> proxy \<Rightarrow> proxy" where
  "setIncludeRegexpPattern pattern s = reset (s\<lparr>include_regexp := pattern\<rparr>)"

definition setExcludeRegexpPattern :: "string \<Rightarrow> proxy \<Rightarrow> proxy" where
  "setExcludeRegexpPattern pattern s = reset (s\<lparr>exclude_regexp := pattern\<rparr>)"

definition minTimeUpdated :: "proxy \<Rightarrow> proxy" where
  "minTimeUpdated s =
     (if display_time s \<and> \<not> display_absolute_time s \<and> msg_mapping s \<noteq> []
      then emit (DataChanged (index s 0) (index s (int_of_size_t (length (msg_mapping s))))) s
      else s)"

subsection \<open>clear\<close>

text \<open>
  \<^verbatim>\<open>clear()\<close> calls \<^verbatim>\<open>db_->clear()\<close> and then \<^verbatim>\<open>reset()\<close>. What the call does
  to the database is the parameter \<open>db_clear\<close>.
\<close>

definition clear :: "qt_lib \<Rightarrow> proxy \<Rightarrow> proxy" where
  "clear L s = reset (s\<lparr>db := db_clear L (db s)\<rparr>)"

subsection \<open>Forward extension\<close>

text \<open>
  The loop of \<^verbatim>\<open>processNewMessages\<close>: from \<^verbatim>\<open>latest_index_\<close> to the end of the log,
  collecting the accepted positions in \<^verbatim>\<open>new_items\<close>; \<^verbatim>\<open>continue\<close> still runs the
  increment.
\<close>

function processNewMessages_loop :: "qt_lib \<Rightarrow> proxy \<Rightarrow> nat list \<Rightarrow> proxy \<times> nat list" where
  "processNewMessages_loop L s new_items =
     (if latest_index s < length (log (db s))
      then
        (if \<not> acceptLogEntry L s (log (db s) ! latest_index s)
         then processNewMessages_loop L (s\<lparr>latest_index := latest_index s + 1\<rparr>) new_items
         else processNewMessages_loop L (s\<lparr>latest_index := latest_index s + 1\<rparr>)
                (new_items @ [latest_index s]))
      else (s, new_items))"
  by pat_completeness auto
termination
  by (relation "measure (\<lambda>(L, s, new_items). length (log (db s)) - latest_index s)") auto

declare processNewMessages_loop.simps [simp del]

definition processNewMessages :: "qt_lib \<Rightarrow> proxy \<Rightarrow> proxy" where
  "processNewMessages L s =
     (case processNewMessages_loop L s [] of
        (s1, new_items) \<Rightarrow>
          (if new_items \<noteq> []
           then
             (let s2 = emit (BeginInsertRows (int_of_size_t (length (msg_mapping s1)))
                               (int_of_size_t (length (msg_mapping s1) + length new_items - 1))) s1;
                  s3 = s2\<lparr>msg_mapping := msg_mapping s2 @ new_items\<rparr>;
                  s4 = emit EndInsertRows s3
              in emit MessagesAdded s4)
           else s1))"

subsection \<open>Backward catch-up\<close>

text \<open>
  The loop of \<^verbatim>\<open>processOldMessages\<close>: at most 100 rounds while
  \<^verbatim>\<open>earliest_index_\<close> is not zero, each reading the entry below the cursor with the
  unchecked \<^verbatim>\<open>operator[]\<close> and pushing an accepted position on the front of
  \<^verbatim>\<open>early_mapping_\<close>; the cursor goes down in every round.
\<close>

function processOldMessages_loop :: "qt_lib \<Rightarrow> nat \<Rightarrow> proxy \<Rightarrow> proxy option" where
  "processOldMessages_loop L i s =
     (if earliest_index s \<noteq> 0 \<and> i < 100
      then
        (case deque_at (log (db s)) (earliest_index s - 1) of
           None \<Rightarrow> None
         | Some item \<Rightarrow>
             (if \<not> acceptLogEntry L s item
              then processOldMessages_loop L (i + 1) (s\<lparr>earliest_index := earliest_index s - 1\<rparr>)
              else processOldMessages_loop L (i + 1)
                     (s\<lparr>early_mapping := (earliest_index s - 1) # early_mapping s,
                        earliest_index := earliest_index s - 1\<rparr>)))
      else Some s)"
  by pat_completeness auto
termination
  by (relation "measure (\<lambda>(L, i, s). 100 - i)") auto

declare processOldMessages_loop.simps [simp del]

text \<open>
  After the loop the pending batch is put in front of the view when the cursor has
  reached zero and the batch is not empty, or when the batch has more than 200 entries;
  then the next step is scheduled.
\<close>

definition processOldMessages :: "qt_lib \<Rightarrow> proxy \<Rightarrow> proxy option" where
  "processOldMessages L s =
     (case processOldMessages_loop L 0 s of
        None \<Rightarrow> None
      | Some s1 \<Rightarrow>
          Some (scheduleIdleProcessing
            (if (earliest_index s1 = 0 \<and> early_mapping s1 \<noteq> []) \<or> 200 < length (early_mapping s1)
             then
               (let s2 = emit (BeginInsertRows 0 (int_of_size_t (length (early_mapping s1) - 1))) s1;
                    s3 = s2\<lparr>msg_mapping := early_mapping s2 @ msg_mapping s2\<rparr>;
                    s4 = s3\<lparr>early_mapping := []\<rparr>;
                    s5 = emit EndInsertRows s4
                in emit MessagesAdded s5)
             else s1)))"

section \<open>Export\<close>

text \<open>
  \<^verbatim>\<open>saveTextFile\<close>: one line per row of the view, the display text of the row followed
  by a newline. The result is the text sent to the stream; \<open>None\<close> is undefined
  behaviour inside \<^verbatim>\<open>data\<close>.
\<close>

function saveTextFile_loop :: "qt_lib \<Rightarrow> proxy \<Rightarrow> nat \<Rightarrow> string \<Rightarrow> string option" where
  "saveTextFile_loop L s i out =
     (if i < length (msg_mapping s)
      then
        (case data L s (index s (int i)) DisplayRole of
           None \<Rightarrow> None
         | Some v \<Rightarrow> saveTextFile_loop L s (i + 1) (out @ toString v @ [CHR 0x0A]))
      else Some out)"
  by pat_completeness auto
termination
  by (relation "measure (\<lambda>(L, s, i, out). length (msg_mapping s) - i)") auto

declare saveTextFile_loop.simps [simp del]

definition saveTextFile :: "qt_lib \<Rightarrow> proxy \<Rightarrow> string option" where
  "saveTextFile L s = saveTextFile_loop L s 0 []"

text \<open>
  \<^verbatim>\<open>saveBagFile\<close>: the messages handed to \<^verbatim>\<open>bag.write\<close>, in order. The loop
  iterates \<^verbatim>\<open>db_->log()\<close> from \<^verbatim>\<open>begin()\<close> to \<^verbatim>\<open>end()\<close>. A stamp below
  \<^verbatim>\<open>ros::TIME_MIN\<close> (zero seconds, one nanosecond) is replaced by the clock reading
  \<^verbatim>\<open>ros::Time::now()\<close>, a parameter here: \<open>now k\<close> is the reading while entry \<open>k\<close>
  is written.
\<close>

record rosgraph_Log =
  header_seq :: "32 word"
  header_stamp :: rostime
  log_level :: "8 word"
  log_name :: string
  log_msg :: string
  log_file :: string
  log_function :: string
  log_line :: "32 word"

definition time_less :: "rostime \<Rightarrow> rostime \<Rightarrow> bool" where
  "time_less a b = (sec a < sec b \<or> (sec a = sec b \<and> nsec a < nsec b))"

definition TIME_MIN :: rostime where
  "TIME_MIN = \<lparr>sec = 0, nsec = 1\<rparr>"

definition bag_message :: "rostime \<Rightarrow> LogEntry \<Rightarrow> string \<times> rostime \<times> rosgraph_Log" where
  "bag_message clock e =
     (let st = (if time_less (stamp e) TIME_MIN then clock else stamp e);
          lg = \<lparr>header_seq = seq e, header_stamp = st, log_level = level e, log_name = node e,
                log_msg = msg e, log_file = file_name e, log_function = function_name e,
                log_line = line e\<rparr>
      in (''/rosout'', header_stamp lg, lg))"

definition saveBagFile :: "(nat \<Rightarrow> rostime) \<Rightarrow> proxy \<Rightarrow> (string \<times> rostime \<times> rosgraph_Log) list" where
  "saveBagFile now s = map (\<lambda>(k, e). bag_message (now k) e) (enumerate 0 (log (db s)))"

text \<open>
  \<^verbatim>\<open>saveToFile\<close> chooses the format by the end of the file name. The result says
  which file was written and with what.
\<close>

datatype saved =
    BagFile "(string \<times> rostime \<times> rosgraph_Log) list"
  | TextFile "string option"

definition saveToFile :: "qt_lib \<Rightarrow> (nat \<Rightarrow> rostime) \<Rightarrow> string \<Rightarrow> proxy \<Rightarrow> saved" where
  "saveToFile L now filename s =
     (if endsWith_ci L filename ''.bag'' then BagFile (saveBagFile now s)
      else TextFile (saveTextFile L s))"

section \<open>Runs of the engine\<close>

text \<open>
  Modelled from the spec: the append operation of the Record Store (\<^verbatim>\<open>LogDatabase\<close>,
  whose code is not part of the source file). The store is ordered and append-only: new
  records go to the end and the records already stored keep their positions.
\<close>

definition store_append :: "LogEntry list \<Rightarrow> proxy \<Rightarrow> proxy" where
  "store_append es s = s\<lparr>db := (db s)\<lparr>log := log (db s) @ es\<rparr>\<rparr>"

text \<open>The store changes its origin time.\<close>

definition store_minTime :: "rostime \<Rightarrow> proxy \<Rightarrow> proxy" where
  "store_minTime t s = s\<lparr>db := (db s)\<lparr>minTime := t\<rparr>\<rparr>"

text \<open>
  The event loop delivers one queued single-shot timer, which calls
  \<^verbatim>\<open>processOldMessages\<close>; with no timer queued nothing happens.
\<close>

definition idle_timeout :: "qt_lib \<Rightarrow> proxy \<Rightarrow> proxy option" where
  "idle_timeout L s =
     (if idle_timers s = 0 then Some s
      else processOldMessages L (s\<lparr>idle_timers := idle_timers s - 1\<rparr>))"

text \<open>
  What can happen to a model: the store grows or moves its origin time, a slot or a
  public method of the model is called, or a queued timer fires. The store is
  append-only: apart from what \<^verbatim>\<open>clear()\<close> of the model has the database do,
  nothing removes or reorders its entries.
\<close>

datatype op =
    StoreAppend "LogEntry list"
  | StoreMinTime rostime
  | ProcessNew
  | ProcessOld
  | IdleTimeout
  | MinTimeUpdated
  | SetNodeFilter "string set"
  | SetSeverityFilter "8 word"
  | SetAbsoluteTime bool
  | SetDisplayTime bool
  | SetUseRegularExpressions bool
  | SetIncludeFilters "string list"
  | SetExcludeFilters "string list"
  | SetIncludeRegexpPattern string
  | SetExcludeRegexpPattern string
  | Clear
  | Reset

fun step :: "qt_lib \<Rightarrow> op \<Rightarrow> proxy \<Rightarrow> proxy option" where
  "step L (StoreAppend es) s = Some (store_append es s)"
| "step L (StoreMinTime t) s = Some (store_minTime t s)"
| "step L ProcessNew s = Some (processNewMessages L s)"
| "step L ProcessOld s = processOldMessages L s"
| "step L IdleTimeout s = idle_timeout L s"
| "step L MinTimeUpdated s = Some (minTimeUpdated s)"
| "step L (SetNodeFilter ns) s = Some (setNodeFilter ns s)"
| "step L (SetSeverityFilter m) s = Some (setSeverityFilter m s)"
| "step L (SetAbsoluteTime b) s = Some (setAbsoluteTime b s)"
| "step L (SetDisplayTime b) s = Some (setDisplayTime b s)"
| "step L (SetUseRegularExpressions b) s = Some (setUseRegularExpressions b s)"
| "step L (SetIncludeFilters l) s = Some (setIncludeFilters l s)"
| "step L (SetExcludeFilters l) s = Some (setExcludeFilters l s)"
| "step L (SetIncludeRegexpPattern p) s = Some (setIncludeRegexpPattern p s)"
| "step L (SetExcludeRegexpPattern p) s = Some (setExcludeRegexpPattern p s)"
| "step L Clear s = Some (clear L s)"
| "step L Reset s = Some (reset s)"

fun run :: "qt_lib \<Rightarrow> op list \<Rightarrow> proxy \<Rightarrow> proxy option" where
  "run L [] s = Some s"
| "run L (x # xs) s = (case step L x s of None \<Rightarrow> None | Some s1 \<Rightarrow> run L xs s1)"

text \<open>The operations that leave the filter configuration and the cursors' origin alone.\<close>

fun keeps_view :: "op \<Rightarrow> bool" where
  "keeps_view (StoreAppend es) = True"
| "keeps_view (StoreMinTime t) = True"
| "keeps_view ProcessNew = True"
| "keeps_view ProcessOld = True"
| "keeps_view IdleTimeout = True"
| "keeps_view MinTimeUpdated = True"
| "keeps_view (SetAbsoluteTime b) = True"
| "keeps_view (SetDisplayTime b) = True"
| "keeps_view _ = False"

text \<open>
  The store appends a batch of entries and emits \<^verbatim>\<open>messagesAdded\<close>, which the
  constructor connects to the slot \<^verbatim>\<open>processNewMessages\<close>; \<open>feed\<close> does this for a
  sequence of batches.
\<close>

fun feed :: "qt_lib \<Rightarrow> LogEntry list list \<Rightarrow> proxy \<Rightarrow> proxy" where
  "feed L [] s = s"
| "feed L (es # bs) s = feed L bs (processNewMessages L (store_append es s))"

section \<open>Invariant of the view\<close>

text \<open>
  Two models have the same filter when the members read by \<^verbatim>\<open>acceptLogEntry\<close> agree.
\<close>

definition same_filter :: "proxy \<Rightarrow> proxy \<Rightarrow> bool" where
  "same_filter s t \<longleftrightarrow>
     names s = names t \<and> severity_mask s = severity_mask t \<and>
     use_regular_expressions s = use_regular_expressions t \<and>
     include_strings s = include_strings t \<and> exclude_strings s = exclude_strings t \<and>
     include_regexp s = include_regexp t \<and> exclude_regexp s = exclude_regexp t"

text \<open>
  The cursors are ordered and within the log; the pending batch followed by the view lists
  exactly the accepted positions between the two cursors, in increasing order; and the
  pending batch is empty once the backward cursor is zero.
\<close>

definition view_inv :: "qt_lib \<Rightarrow> proxy \<Rightarrow> bool" where
  "view_inv L s \<longleftrightarrow>
     earliest_index s \<le> latest_index s \<and> latest_index s \<le> length (log (db s)) \<and>
     early_mapping s @ msg_mapping s =
       filter (\<lambda>i. acceptLogEntry L s (log (db s) ! i)) [earliest_index s ..< latest_index s] \<and>
     (0 < earliest_index s \<or> early_mapping s = [])"

section \<open>Concrete instances\<close>

text \<open>
  A small instance of the parameters, for evaluating the model on concrete inputs: case
  folding of ASCII letters; patterns that are plain texts to be found in the message, a
  pattern with a parenthesis counting as malformed (it never matches); the difference of
  two times as whole seconds and the nanoseconds left, between zero and a second; and a
  database whose clear drops every entry.
\<close>

definition lower :: "char \<Rightarrow> char" where
  "lower c = (if 65 \<le> (of_char c :: nat) \<and> (of_char c :: nat) \<le> 90
              then char_of (of_char c + 32 :: nat) else c)"

fun find_sub :: "string \<Rightarrow> string \<Rightarrow> nat \<Rightarrow> int" where
  "find_sub p [] k = (if p = [] then int k else - 1)"
| "find_sub p (c # cs) k =
     (if take (length p) (c # cs) = p then int k else find_sub p cs (k + 1))"

definition example_lib :: qt_lib where
  "example_lib =
     \<lparr>contains_ci = (\<lambda>m t. 0 \<le> find_sub (map lower t) (map lower m) 0),
      regexp_isValid = (\<lambda>p. CHR ''('' \<notin> set p),
      regexp_indexIn = (\<lambda>p m. if CHR ''('' \<in> set p then - 1 else find_sub p m 0),
      endsWith_ci = (\<lambda>f t. map lower (drop (length f - length t) f) = map lower t),
      time_minus = (\<lambda>a b. let d = (uint (sec a) * 1000000000 + uint (nsec a))
                                     - (uint (sec b) * 1000000000 + uint (nsec b))
                             in \<lparr>dsec = d div 1000000000, dnsec = d mod 1000000000\<rparr>),
      db_clear = (\<lambda>d. d\<lparr>log := []\<rparr>)\<rparr>"

definition example_entry :: "8 word \<Rightarrow> string \<Rightarrow> string \<Rightarrow> LogEntry" where
  "example_entry l n m =
     \<lparr>stamp = \<lparr>sec = 5, nsec = 0\<rparr>, level = l, node = n, file_name = ''a.cpp'',
      function_name = ''f'', line = 1, msg = m, seq = 0\<rparr>"

text \<open>
  A model over a store holding \<open>es\<close>, accepting WARN and ERROR from node \<open>A\<close> in text
  mode without include or exclude strings; its view is empty and nothing is scheduled.
\<close>

definition example_model :: "LogEntry list \<Rightarrow> proxy" where
  "example_model es =
     \<lparr>db = \<lparr>log = es, minTime = \<lparr>sec = 0, nsec = 0\<rparr>\<rparr>,
      names = {''A''}, severity_mask = 12,
      display_absolute_time = True, display_time = False,
      use_regular_expressions = False,
      include_strings = [], exclude_strings = [],
      include_regexp = [], exclude_regexp = [],
      msg_mapping = [], early_mapping = [],
      earliest_index = 0, latest_index = 0,
      events = [], idle_timers = 0\<rparr>"

text \<open>Three entries of node \<open>A\<close>: INFO, WARN and ERROR.\<close>

definition example_log :: "LogEntry list" where
  "example_log =
     [example_entry 2 ''A'' ''all good'',
      example_entry 4 ''A'' ''Connection Timeout occurred'',
      example_entry 8 ''A'' ''failed'']"

text \<open>
  The model over the three entries after a reset and one delivered timer: catch-up is
  complete and the view holds the positions of the WARN and the ERROR entry. The second
  model is the same in pattern mode, with empty patterns.
\<close>

definition example_view :: proxy where
  "example_view = the (run example_lib [IdleTimeout] (reset (example_model example_log)))"

definition example_regexp_view :: proxy where
  "example_regexp_view =
     the (run example_lib [SetUseRegularExpressions True, IdleTimeout]
            (reset (example_model example_log)))"

text \<open>
  The same model after a reset, one delivered timer, the append of a WARN entry of node
  \<open>A\<close> and forward extension.
\<close>

definition example_late_view :: proxy where
  "example_late_view =
     the (run example_lib [IdleTimeout, StoreAppend [example_entry 4 ''A'' ''late''], ProcessNew]
            (reset (example_model example_log)))"

section \<open>Properties of the loops and of the invariant\<close>

lemma accept_upd [simp]:
  "acceptLogEntry L (s\<lparr>latest_index := a\<rparr>) = acceptLogEntry L s"
  "acceptLogEntry L (s\<lparr>earliest_index := a\<rparr>) = acceptLogEntry L s"
  "acceptLogEntry L (s\<lparr>early_mapping := b\<rparr>) = acceptLogEntry L s"
  "acceptLogEntry L (s\<lparr>msg_mapping := b\<rparr>) = acceptLogEntry L s"
  "acceptLogEntry L (s\<lparr>events := c\<rparr>) = acceptLogEntry L s"
  "acceptLogEntry L (s\<lparr>idle_timers := a\<rparr>) = acceptLogEntry L s"
  "acceptLogEntry L (s\<lparr>db := d\<rparr>) = acceptLogEntry L s"
  "acceptLogEntry L (s\<lparr>display_time := f\<rparr>) = acceptLogEntry L s"
  "acceptLogEntry L (s\<lparr>display_absolute_time := f\<rparr>) = acceptLogEntry L s"
  by (simp_all add: acceptLogEntry_def testIncludeFilter_def fun_eq_iff)

lemma new_loop:
  "processNewMessages_loop L s acc =
     (s\<lparr>latest_index := max (latest_index s) (length (log (db s)))\<rparr>,
      acc @ filter (\<lambda>i. acceptLogEntry L s (log (db s) ! i)) [latest_index s ..< length (log (db s))])"
proof (induction L s acc rule: processNewMessages_loop.induct)
  case (1 L s new_items)
  show ?case
  proof (cases "latest_index s < length (log (db s))")
    case True
    then show ?thesis
      using 1 by (subst processNewMessages_loop.simps) (simp add: upt_conv_Cons max_def)
  next
    case False
    then show ?thesis
      by (subst processNewMessages_loop.simps) (simp add: max_def)
  qed
qed

lemma old_loop:
  "earliest_index s \<le> length (log (db s)) \<Longrightarrow>
   processOldMessages_loop L i s =
     Some (s\<lparr>early_mapping :=
               filter (\<lambda>k. acceptLogEntry L s (log (db s) ! k))
                 [earliest_index s - min (100 - i) (earliest_index s) ..< earliest_index s]
               @ early_mapping s,
             earliest_index := earliest_index s - min (100 - i) (earliest_index s)\<rparr>)"
proof (induction L i s rule: processOldMessages_loop.induct)
  case (1 L i s)
  show ?case
  proof (cases "earliest_index s \<noteq> 0 \<and> i < 100")
    case True
    obtain e where e: "earliest_index s = Suc e" using True by (cases "earliest_index s") auto
    have m: "min (100 - i) (Suc e) = Suc (min (100 - (i + 1)) e)" using True by arith
    have inb: "deque_at (log (db s)) (earliest_index s - 1) = Some (log (db s) ! e)"
      using "1.prems" e by (simp add: deque_at_def)
    have up: "[e - min (99 - i) e ..< Suc e] = [e - min (99 - i) e ..< e] @ [e]"
      by simp
    show ?thesis
    proof (cases "acceptLogEntry L s (log (db s) ! e)")
      case acc: True
      have "processOldMessages_loop L i s = processOldMessages_loop L (i + 1)
                     (s\<lparr>early_mapping := (earliest_index s - 1) # early_mapping s,
                        earliest_index := earliest_index s - 1\<rparr>)"
        using True inb acc e by (subst processOldMessages_loop.simps) simp
      also have "\<dots> = Some (s\<lparr>early_mapping :=
               filter (\<lambda>k. acceptLogEntry L s (log (db s) ! k))
                 [earliest_index s - min (100 - i) (earliest_index s) ..< earliest_index s]
               @ early_mapping s,
             earliest_index := earliest_index s - min (100 - i) (earliest_index s)\<rparr>)"
        using "1.IH"(2)[OF True inb] acc "1.prems" e
        by (simp add: m up del: upt_Suc)
      finally show ?thesis .
    next
      case rej: False
      have "processOldMessages_loop L i s = processOldMessages_loop L (i + 1)
                     (s\<lparr>earliest_index := earliest_index s - 1\<rparr>)"
        using True inb rej e by (subst processOldMessages_loop.simps) simp
      also have "\<dots> = Some (s\<lparr>early_mapping :=
               filter (\<lambda>k. acceptLogEntry L s (log (db s) ! k))
                 [earliest_index s - min (100 - i) (earliest_index s) ..< earliest_index s]
               @ early_mapping s,
             earliest_index := earliest_index s - min (100 - i) (earliest_index s)\<rparr>)"
        using "1.IH"(1)[OF True inb] rej "1.prems" e
        by (simp add: m up del: upt_Suc)
      finally show ?thesis .
    qed
  next
    case False
    then have "min (100 - i) (earliest_index s) = 0" by arith
    moreover have "processOldMessages_loop L i s = Some s"
      using False by (subst processOldMessages_loop.simps) auto
    ultimately show ?thesis by simp
  qed
qed


lemma same_filter_accept: "same_filter s t \<Longrightarrow> acceptLogEntry L s = acceptLogEntry L t"
  by (simp add: same_filter_def acceptLogEntry_def testIncludeFilter_def fun_eq_iff)

lemma same_filter_refl [simp]: "same_filter s s"
  by (simp add: same_filter_def)

lemma same_filter_trans: "same_filter s t \<Longrightarrow> same_filter t u \<Longrightarrow> same_filter s u"
  by (simp add: same_filter_def)

lemma reset_fields:
  "msg_mapping (reset s) = []"
  "early_mapping (reset s) = []"
  "earliest_index (reset s) = length (log (db s))"
  "latest_index (reset s) = length (log (db s))"
  "db (reset s) = db s"
  "same_filter (reset s) s"
  "idle_timers (reset s) = (if 0 < length (log (db s)) then idle_timers s + 1 else idle_timers s)"
  "events (reset s) = events s @ [BeginResetModel, EndResetModel]"
  by (simp_all add: reset_def emit_def scheduleIdleProcessing_def Let_def same_filter_def)

lemma accept_reset [simp]: "acceptLogEntry L (reset s) = acceptLogEntry L s"
  by (rule same_filter_accept) (rule reset_fields)

lemma reset_inv: "view_inv L (reset s)"
  by (simp add: view_inv_def reset_fields)

lemma processNew_fields:
  "msg_mapping (processNewMessages L s) =
     msg_mapping s @ filter (\<lambda>i. acceptLogEntry L s (log (db s) ! i)) [latest_index s ..< length (log (db s))]"
  "early_mapping (processNewMessages L s) = early_mapping s"
  "earliest_index (processNewMessages L s) = earliest_index s"
  "latest_index (processNewMessages L s) = max (latest_index s) (length (log (db s)))"
  "db (processNewMessages L s) = db s"
  "same_filter (processNewMessages L s) s"
  "idle_timers (processNewMessages L s) = idle_timers s"
  by (simp_all add: processNewMessages_def new_loop emit_def Let_def same_filter_def)

lemma accept_processNew [simp]: "acceptLogEntry L (processNewMessages L s) = acceptLogEntry L s"
  by (rule same_filter_accept) (rule processNew_fields)

lemma processNew_inv:
  assumes "view_inv L s"
  shows "view_inv L (processNewMessages L s)"
proof -
  let ?P = "\<lambda>i. acceptLogEntry L s (log (db s) ! i)"
  have le: "earliest_index s \<le> latest_index s" "latest_index s \<le> length (log (db s))"
    using assms by (simp_all add: view_inv_def)
  have "[earliest_index s ..< length (log (db s))] =
        [earliest_index s ..< latest_index s] @ [latest_index s ..< length (log (db s))]"
    using le by (metis le_Suc_ex upt_add_eq_append)
  then have "filter ?P [earliest_index s ..< length (log (db s))] =
     filter ?P [earliest_index s ..< latest_index s] @ filter ?P [latest_index s ..< length (log (db s))]"
    by simp
  moreover have "early_mapping s @ msg_mapping s = filter ?P [earliest_index s ..< latest_index s]"
    using assms by (simp add: view_inv_def)
  ultimately show ?thesis
    using assms le by (simp add: view_inv_def processNew_fields max_def)
qed

lemma processOld_fields:
  assumes "earliest_index s \<le> length (log (db s))"
  shows "\<exists>t. processOldMessages L s = Some t \<and>
           earliest_index t = earliest_index s - 100 \<and>
           latest_index t = latest_index s \<and>
           db t = db s \<and> same_filter t s \<and>
           idle_timers t = (if 100 < earliest_index s then idle_timers s + 1 else idle_timers s) \<and>
           early_mapping t @ msg_mapping t =
             filter (\<lambda>k. acceptLogEntry L s (log (db s) ! k)) [earliest_index s - 100 ..< earliest_index s]
             @ early_mapping s @ msg_mapping s \<and>
           (0 < earliest_index t \<or> early_mapping t = [])"
proof -
  have m: "earliest_index s - min 100 (earliest_index s) = earliest_index s - 100"
    by arith
  let ?P = "\<lambda>k. acceptLogEntry L s (log (db s) ! k)"
  define s1 where "s1 = s\<lparr>early_mapping :=
      filter ?P [earliest_index s - 100 ..< earliest_index s] @ early_mapping s,
      earliest_index := earliest_index s - 100\<rparr>"
  have loop: "processOldMessages_loop L 0 s = Some s1"
    using old_loop [OF assms, of L 0] by (simp add: m s1_def)
  have s1: "earliest_index s1 = earliest_index s - 100" "latest_index s1 = latest_index s"
    "db s1 = db s" "same_filter s1 s" "idle_timers s1 = idle_timers s"
    "msg_mapping s1 = msg_mapping s"
    "early_mapping s1 = filter ?P [earliest_index s - 100 ..< earliest_index s] @ early_mapping s"
    by (simp_all add: s1_def same_filter_def)
  show ?thesis
  proof (cases "(earliest_index s1 = 0 \<and> early_mapping s1 \<noteq> []) \<or> 200 < length (early_mapping s1)")
    case True
    then have "processOldMessages L s = Some (scheduleIdleProcessing
               (let s2 = emit (BeginInsertRows 0 (int_of_size_t (length (early_mapping s1) - 1))) s1;
                    s3 = s2\<lparr>msg_mapping := early_mapping s2 @ msg_mapping s2\<rparr>;
                    s4 = s3\<lparr>early_mapping := []\<rparr>;
                    s5 = emit EndInsertRows s4
                in emit MessagesAdded s5))"
      unfolding processOldMessages_def loop by (simp only: if_True option.case)
    then show ?thesis
      using s1 by (simp add: scheduleIdleProcessing_def emit_def Let_def same_filter_def)
  next
    case False
    then have "processOldMessages L s = Some (scheduleIdleProcessing s1)"
      unfolding processOldMessages_def loop by (simp only: if_False option.case)
    then show ?thesis
      using s1 False by (simp add: scheduleIdleProcessing_def same_filter_def)
  qed
qed

lemma processOld_inv:
  assumes "view_inv L s"
  shows "\<exists>t. processOldMessages L s = Some t \<and> view_inv L t \<and>
           earliest_index t = earliest_index s - 100 \<and> latest_index t = latest_index s \<and>
           db t = db s \<and> same_filter t s \<and>
           idle_timers t = (if 100 < earliest_index s then idle_timers s + 1 else idle_timers s)"
proof -
  let ?P = "\<lambda>i. acceptLogEntry L s (log (db s) ! i)"
  have le: "earliest_index s \<le> latest_index s" "latest_index s \<le> length (log (db s))"
    and eq: "early_mapping s @ msg_mapping s = filter ?P [earliest_index s ..< latest_index s]"
    using assms by (simp_all add: view_inv_def)
  from le have "earliest_index s \<le> length (log (db s))" by simp
  from processOld_fields [OF this, of L] obtain t where t:
    "processOldMessages L s = Some t" "earliest_index t = earliest_index s - 100"
    "latest_index t = latest_index s" "db t = db s" "same_filter t s"
    "idle_timers t = (if 100 < earliest_index s then idle_timers s + 1 else idle_timers s)"
    "early_mapping t @ msg_mapping t =
       filter ?P [earliest_index s - 100 ..< earliest_index s] @ early_mapping s @ msg_mapping s"
    "0 < earliest_index t \<or> early_mapping t = []"
    by blast
  have "[earliest_index s - 100 ..< latest_index s] =
        [earliest_index s - 100 ..< earliest_index s] @ [earliest_index s ..< latest_index s]"
    using le by (metis diff_le_self le_Suc_ex upt_add_eq_append)
  then have "early_mapping t @ msg_mapping t = filter ?P [earliest_index t ..< latest_index t]"
    using t eq by simp
  then have "view_inv L t"
    using t le same_filter_accept [OF t(5), of L] by (simp add: view_inv_def)
  with t show ?thesis by blast
qed


lemma view_inv_cong:
  assumes "view_inv L s" "same_filter t s" "log (db t) = log (db s)"
    "earliest_index t = earliest_index s" "latest_index t = latest_index s"
    "early_mapping t = early_mapping s" "msg_mapping t = msg_mapping s"
  shows "view_inv L t"
  using assms same_filter_accept [OF assms(2), of L] by (simp add: view_inv_def)

lemma store_append_inv:
  assumes "view_inv L s"
  shows "view_inv L (store_append es s)"
proof -
  have le: "latest_index s \<le> length (log (db s))"
    using assms by (simp add: view_inv_def)
  have "filter (\<lambda>i. acceptLogEntry L s ((log (db s) @ es) ! i)) [earliest_index s ..< latest_index s]
      = filter (\<lambda>i. acceptLogEntry L s (log (db s) ! i)) [earliest_index s ..< latest_index s]"
    using le by (intro filter_cong refl) (simp add: nth_append)
  then show ?thesis
    using assms by (simp add: view_inv_def store_append_def)
qed

lemma setters_fields:
  "same_filter (setAbsoluteTime b s) s" "db (setAbsoluteTime b s) = db s"
  "earliest_index (setAbsoluteTime b s) = earliest_index s"
  "latest_index (setAbsoluteTime b s) = latest_index s"
  "early_mapping (setAbsoluteTime b s) = early_mapping s"
  "msg_mapping (setAbsoluteTime b s) = msg_mapping s"
  "same_filter (setDisplayTime b s) s" "db (setDisplayTime b s) = db s"
  "earliest_index (setDisplayTime b s) = earliest_index s"
  "latest_index (setDisplayTime b s) = latest_index s"
  "early_mapping (setDisplayTime b s) = early_mapping s"
  "msg_mapping (setDisplayTime b s) = msg_mapping s"
  "same_filter (minTimeUpdated s) s" "db (minTimeUpdated s) = db s"
  "earliest_index (minTimeUpdated s) = earliest_index s"
  "latest_index (minTimeUpdated s) = latest_index s"
  "early_mapping (minTimeUpdated s) = early_mapping s"
  "msg_mapping (minTimeUpdated s) = msg_mapping s"
  by (simp_all add: setAbsoluteTime_def setDisplayTime_def minTimeUpdated_def emit_def Let_def
        same_filter_def)

lemma idle_timeout_inv:
  assumes "view_inv L s"
  shows "\<exists>t. idle_timeout L s = Some t \<and> view_inv L t \<and>
           earliest_index t = (if idle_timers s = 0 then earliest_index s else earliest_index s - 100) \<and>
           latest_index t = latest_index s \<and> db t = db s \<and> same_filter t s \<and>
           idle_timers t = (if idle_timers s = 0 then 0
                            else if 100 < earliest_index s then idle_timers s else idle_timers s - 1)"
proof (cases "idle_timers s = 0")
  case True
  then show ?thesis using assms by (simp add: idle_timeout_def)
next
  case False
  let ?s = "s\<lparr>idle_timers := idle_timers s - 1\<rparr>"
  have "view_inv L ?s"
    by (rule view_inv_cong [OF assms]) (simp_all add: same_filter_def)
  from processOld_inv [OF this] obtain t where
    "processOldMessages L ?s = Some t" "view_inv L t" "earliest_index t = earliest_index ?s - 100"
    "latest_index t = latest_index ?s" "db t = db ?s" "same_filter t ?s"
    "idle_timers t = (if 100 < earliest_index ?s then idle_timers ?s + 1 else idle_timers ?s)"
    by blast
  then show ?thesis
    using False by (simp add: idle_timeout_def same_filter_def)
qed

lemma step_inv:
  assumes "view_inv L s"
  shows "\<exists>t. step L x s = Some t \<and> view_inv L t"
proof (cases x)
  case (StoreAppend es)
  then show ?thesis using store_append_inv [OF assms] by simp
next
  case (StoreMinTime t)
  have "view_inv L (store_minTime t s)"
    by (rule view_inv_cong [OF assms]) (simp_all add: store_minTime_def same_filter_def)
  then show ?thesis using StoreMinTime by simp
next
  case ProcessNew
  then show ?thesis using processNew_inv [OF assms] by simp
next
  case ProcessOld
  then show ?thesis using processOld_inv [OF assms] by auto
next
  case IdleTimeout
  then show ?thesis using idle_timeout_inv [OF assms] by auto
next
  case MinTimeUpdated
  have "view_inv L (minTimeUpdated s)"
    by (rule view_inv_cong [OF assms]) (simp_all add: setters_fields)
  then show ?thesis using MinTimeUpdated by simp
next
  case (SetAbsoluteTime b)
  have "view_inv L (setAbsoluteTime b s)"
    by (rule view_inv_cong [OF assms]) (simp_all add: setters_fields)
  then show ?thesis using SetAbsoluteTime by simp
next
  case (SetDisplayTime b)
  have "view_inv L (setDisplayTime b s)"
    by (rule view_inv_cong [OF assms]) (simp_all add: setters_fields)
  then show ?thesis using SetDisplayTime by simp
next
  case (SetUseRegularExpressions b)
  then show ?thesis using assms by (simp add: setUseRegularExpressions_def reset_inv)
qed (simp_all add: reset_inv setNodeFilter_def setSeverityFilter_def setIncludeFilters_def
       setExcludeFilters_def setIncludeRegexpPattern_def setExcludeRegexpPattern_def clear_def)

lemma run_inv:
  "view_inv L s \<Longrightarrow> \<exists>t. run L ops s = Some t \<and> view_inv L t"
proof (induction ops arbitrary: s)
  case Nil
  then show ?case by simp
next
  case (Cons x xs)
  from step_inv [OF Cons.prems, of x] obtain s1 where "step L x s = Some s1" "view_inv L s1"
    by blast
  then show ?case using Cons.IH [of s1] by simp
qed

lemma sorted_filter_upt: "sorted_wrt (<) (filter P [a ..< b])"
  by (rule sorted_wrt_filter) (rule sorted_wrt_upt)

lemma view_inv_sorted:
  assumes "view_inv L s"
  shows "sorted_wrt (<) (msg_mapping s)"
proof -
  have "sorted_wrt (<) (early_mapping s @ msg_mapping s)"
    using assms sorted_filter_upt by (simp add: view_inv_def)
  then show ?thesis by (simp add: sorted_wrt_append)
qed

lemma view_inv_accepted:
  assumes "view_inv L s"
  shows "list_all (\<lambda>i. i < length (log (db s)) \<and> acceptLogEntry L s (log (db s) ! i)) (msg_mapping s)"
proof -
  have "set (msg_mapping s) \<subseteq> set (early_mapping s @ msg_mapping s)" by simp
  also have "\<dots> = set (filter (\<lambda>i. acceptLogEntry L s (log (db s) ! i)) [earliest_index s ..< latest_index s])"
    using assms by (simp add: view_inv_def)
  finally show ?thesis
    using assms by (auto simp add: list_all_iff view_inv_def)
qed

lemma store_append_fields:
  "same_filter (store_append es s) s" "log (db (store_append es s)) = log (db s) @ es"
  "earliest_index (store_append es s) = earliest_index s"
  "latest_index (store_append es s) = latest_index s"
  "early_mapping (store_append es s) = early_mapping s"
  "msg_mapping (store_append es s) = msg_mapping s"
  "idle_timers (store_append es s) = idle_timers s"
  by (simp_all add: store_append_def same_filter_def)

lemma keeps_step:
  assumes "keeps_view x" "view_inv L s"
  shows "\<exists>t. step L x s = Some t \<and> view_inv L t \<and> same_filter t s \<and>
           latest_index s \<le> latest_index t \<and> (\<exists>es. log (db t) = log (db s) @ es)"
proof (cases x)
  case (StoreAppend es)
  then show ?thesis
    using store_append_inv [OF assms(2), of es] by (simp add: store_append_fields)
next
  case (StoreMinTime t)
  have "view_inv L (store_minTime t s)"
    by (rule view_inv_cong [OF assms(2)]) (simp_all add: store_minTime_def same_filter_def)
  then show ?thesis using StoreMinTime by (simp add: store_minTime_def same_filter_def)
next
  case ProcessNew
  then show ?thesis using processNew_inv [OF assms(2)] by (simp add: processNew_fields)
next
  case ProcessOld
  then show ?thesis using processOld_inv [OF assms(2)] by auto
next
  case IdleTimeout
  then show ?thesis using idle_timeout_inv [OF assms(2)] by auto
next
  case MinTimeUpdated
  have "view_inv L (minTimeUpdated s)"
    by (rule view_inv_cong [OF assms(2)]) (simp_all add: setters_fields)
  then show ?thesis using MinTimeUpdated by (simp add: setters_fields)
next
  case (SetAbsoluteTime b)
  have "view_inv L (setAbsoluteTime b s)"
    by (rule view_inv_cong [OF assms(2)]) (simp_all add: setters_fields)
  then show ?thesis using SetAbsoluteTime by (simp add: setters_fields)
next
  case (SetDisplayTime b)
  have "view_inv L (setDisplayTime b s)"
    by (rule view_inv_cong [OF assms(2)]) (simp_all add: setters_fields)
  then show ?thesis using SetDisplayTime by (simp add: setters_fields)
qed (use assms(1) in simp_all)

lemma keeps_run:
  "list_all keeps_view ops \<Longrightarrow> view_inv L s \<Longrightarrow>
   \<exists>t. run L ops s = Some t \<and> view_inv L t \<and> same_filter t s \<and>
       latest_index s \<le> latest_index t \<and> (\<exists>es. log (db t) = log (db s) @ es)"
proof (induction ops arbitrary: s)
  case Nil
  then show ?case by simp
next
  case (Cons x xs)
  from Cons.prems have kx: "keeps_view x" and kxs: "list_all keeps_view xs" by simp_all
  from keeps_step [OF kx Cons.prems(2)] obtain s1 es1 where s1:
    "step L x s = Some s1" "view_inv L s1" "same_filter s1 s"
    "latest_index s \<le> latest_index s1" "log (db s1) = log (db s) @ es1"
    by blast
  from Cons.IH [OF kxs s1(2)] obtain t es2 where t:
    "run L xs s1 = Some t" "view_inv L t" "same_filter t s1"
    "latest_index s1 \<le> latest_index t" "log (db t) = log (db s1) @ es2"
    by blast
  have "run L (x # xs) s = Some t" using s1(1) t(1) by simp
  moreover have "same_filter t s" using t(3) s1(3) by (rule same_filter_trans)
  moreover have "latest_index s \<le> latest_index t" using s1(4) t(4) by simp
  moreover have "log (db t) = log (db s) @ (es1 @ es2)" using s1(5) t(5) by simp
  ultimately show ?case using t(2) by blast
qed

lemma ex_Some_the: "\<exists>u. r = Some u \<and> P u \<Longrightarrow> r = Some (the r) \<and> P (the r)"
  by auto

lemma length_filter_appended:
  "length (filter (\<lambda>i. P ((xs @ es) ! i)) [length xs ..< length xs + length es]) = length (filter P es)"
proof -
  have m: "map (\<lambda>i. (xs @ es) ! i) [length xs ..< length xs + length es] = es"
    by (rule nth_equalityI) (simp_all add: nth_append)
  have "length (filter (\<lambda>i. P ((xs @ es) ! i)) [length xs ..< length xs + length es])
      = length (map (\<lambda>i. (xs @ es) ! i) (filter (P \<circ> (\<lambda>i. (xs @ es) ! i)) [length xs ..< length xs + length es]))"
    by (simp add: comp_def)
  also have "\<dots> = length (filter P (map (\<lambda>i. (xs @ es) ! i) [length xs ..< length xs + length es]))"
    by (simp only: filter_map)
  finally show ?thesis by (simp only: m)
qed

lemma accept_store_append [simp]: "acceptLogEntry L (store_append es s) = acceptLogEntry L s"
  by (simp add: store_append_def)

lemma feed_count:
  "latest_index t = length (log (db t)) \<Longrightarrow>
   length (msg_mapping (feed L bs t)) =
     length (msg_mapping t) + length (filter (acceptLogEntry L t) (concat bs))"
proof (induction bs arbitrary: t)
  case Nil
  then show ?case by simp
next
  case (Cons es bs)
  let ?u = "processNewMessages L (store_append es t)"
  have lat: "latest_index ?u = length (log (db ?u))"
    using Cons.prems by (simp add: processNew_fields store_append_fields)
  have acc: "acceptLogEntry L ?u = acceptLogEntry L t"
    by simp
  have "length (msg_mapping ?u) = length (msg_mapping t) + length (filter (acceptLogEntry L t) es)"
    using Cons.prems
    by (simp add: processNew_fields store_append_fields length_filter_appended)
  then show ?case
    using Cons.IH [OF lat] by (simp add: acc)
qed

lemma processNew_noop:
  assumes "length (log (db s)) \<le> latest_index s"
  shows "processNewMessages L s = s"
  using assms by (simp add: processNewMessages_def new_loop max_def)

lemma idle_run_stale:
  assumes "view_inv L s" "0 < earliest_index s \<longrightarrow> 0 < idle_timers s"
  shows "\<exists>t. run L (replicate k IdleTimeout) s = Some t \<and>
           earliest_index t = earliest_index s - 100 * k \<and>
           idle_timers t =
             (if 100 * k < earliest_index s then idle_timers s
              else idle_timers s - (k - (earliest_index s + 99) div 100)
                   - (if 0 < earliest_index s then 1 else 0))"
  using assms
proof (induction k arbitrary: s)
  case 0
  then show ?case by simp
next
  case (Suc k)
  from idle_timeout_inv [OF Suc.prems(1)] obtain s1 where s1:
    "idle_timeout L s = Some s1" "view_inv L s1"
    "earliest_index s1 = (if idle_timers s = 0 then earliest_index s else earliest_index s - 100)"
    "idle_timers s1 = (if idle_timers s = 0 then 0
                       else if 100 < earliest_index s then idle_timers s else idle_timers s - 1)"
    by blast
  have e1: "earliest_index s1 = earliest_index s - 100"
    using s1(3) Suc.prems(2) by (simp split: if_splits)
  have p1: "0 < earliest_index s1 \<longrightarrow> 0 < idle_timers s1"
    using s1(4) e1 Suc.prems(2) by (simp split: if_splits)
  from Suc.IH [OF s1(2) p1] obtain t where t:
    "run L (replicate k IdleTimeout) s1 = Some t"
    "earliest_index t = earliest_index s1 - 100 * k"
    "idle_timers t =
       (if 100 * k < earliest_index s1 then idle_timers s1
        else idle_timers s1 - (k - (earliest_index s1 + 99) div 100)
             - (if 0 < earliest_index s1 then 1 else 0))"
    by blast
  have r: "run L (replicate (Suc k) IdleTimeout) s = Some t"
    using s1(1) t(1) by simp
  have e: "earliest_index t = earliest_index s - 100 * Suc k"
    using t(2) e1 by simp
  have i: "idle_timers t =
             (if 100 * Suc k < earliest_index s then idle_timers s
              else idle_timers s - (Suc k - (earliest_index s + 99) div 100)
                   - (if 0 < earliest_index s then 1 else 0))"
  proof (cases "100 < earliest_index s")
    case True
    then have "(earliest_index s + 99) div 100 = Suc ((earliest_index s - 100 + 99) div 100)"
      by arith
    moreover have "idle_timers s1 = idle_timers s"
      using s1(4) True Suc.prems(2) by simp
    ultimately show ?thesis
      using t(3) e1 True by (simp add: less_diff_conv)
  next
    case False
    show ?thesis
    proof (cases "0 < earliest_index s")
      case pos: True
      then have "(earliest_index s + 99) div 100 = 1" using False by arith
      moreover have "idle_timers s1 = idle_timers s - 1"
        using s1(4) False pos Suc.prems(2) by simp
      ultimately show ?thesis
        using t(3) e1 False pos by simp
    next
      case zero: False
      have "idle_timers s1 = idle_timers s - 1"
        using s1(4) zero by simp
      then show ?thesis
        using t(3) e1 zero by simp
    qed
  qed
  show ?case by (rule exI [of _ t]) (intro conjI r e i)
qed

lemma size_t_of_int_nat: "0 \<le> i \<Longrightarrow> i < 2 ^ 31 \<Longrightarrow> size_t_of_int i = nat i"
  by (simp add: size_t_of_int_def)

lemma size_t_of_int_neg:
  assumes "i < 0" "- (2 ^ 31) \<le> i"
  shows "2 ^ 31 \<le> size_t_of_int i"
proof -
  have "i mod 2 ^ 64 = i + 2 ^ 64"
  proof -
    have "0 \<le> i + 2 ^ 64" "i + 2 ^ 64 < 2 ^ 64" using assms by simp_all
    then have "(i + 2 ^ 64) mod 2 ^ 64 = i + 2 ^ 64" by (rule mod_pos_pos_trivial)
    then show ?thesis by simp
  qed
  then show ?thesis using assms by (simp add: size_t_of_int_def)
qed

lemma saveBagFile_length: "length (saveBagFile now s) = length (log (db s))"
  by (simp add: saveBagFile_def)

lemma view_inv_in_range:
  assumes "view_inv L s" "p < length (msg_mapping s)"
  shows "msg_mapping s ! p < length (log (db s))"
  using view_inv_accepted [OF assms(1)] assms(2) by (simp add: list_all_length)

lemma data_in_range:
  assumes "p < length (msg_mapping s)" "p < 2 ^ 31" "row idx = int p"
    "msg_mapping s ! p < length (log (db s))"
  shows "data L s idx rl =
           Some (case rl of
                   DisplayRole \<Rightarrow> QVariant_string (display_text L s (log (db s) ! (msg_mapping s ! p)))
                 | ToolTipRole \<Rightarrow> QVariant_string (tooltip_text (log (db s) ! (msg_mapping s ! p)))
                 | OtherRole \<Rightarrow> QVariant_empty)"
proof -
  have "size_t_of_int (row idx) = p"
    using assms(2,3) by (simp add: size_t_of_int_nat)
  then show ?thesis
    using assms(1,4) by (simp add: data_def deque_at_def split: role.splits)
qed

lemma int_of_size_t_small: "n < 2 ^ 31 \<Longrightarrow> int_of_size_t n = int n"
  by (simp add: int_of_size_t_def)

lemma rowCount_small:
  "length (msg_mapping s) < 2 ^ 31 \<Longrightarrow> rowCount s QModelIndex0 = int (length (msg_mapping s))"
  by (simp add: rowCount_def QModelIndex0_def int_of_size_t_small)

lemma index_in_range:
  "i < length (msg_mapping s) \<Longrightarrow> length (msg_mapping s) < 2 ^ 31 \<Longrightarrow>
   index s (int i) = \<lparr>isValid = True, row = int i, parent_isValid = False\<rparr>"
  by (simp add: index_def rowCount_small)

lemma saveTextFile_loop_view:
  "list_all (\<lambda>k. k < length (log (db s))) (msg_mapping s) \<Longrightarrow>
   length (msg_mapping s) < 2 ^ 31 \<Longrightarrow>
   saveTextFile_loop L s i out =
           Some (out @ concat (map (\<lambda>k. display_text L s (log (db s) ! k) @ [CHR 0x0A])
                                 (drop i (msg_mapping s))))"
proof (induction L s i out rule: saveTextFile_loop.induct)
  case (1 L s i out)
  note inr = "1.prems"(1) and small = "1.prems"(2)
  show ?case
  proof (cases "i < length (msg_mapping s)")
    case True
    have k: "msg_mapping s ! i < length (log (db s))"
      using inr True by (simp add: list_all_length)
    have d: "data L s (index s (int i)) DisplayRole =
               Some (QVariant_string (display_text L s (log (db s) ! (msg_mapping s ! i))))"
      using data_in_range [of i s "index s (int i)" L DisplayRole] True small k
      by (simp add: index_in_range [OF True small])
    have "saveTextFile_loop L s i out =
            saveTextFile_loop L s (i + 1)
              (out @ display_text L s (log (db s) ! (msg_mapping s ! i)) @ [CHR 0x0A])"
      using True d by (subst saveTextFile_loop.simps) simp
    also have "\<dots> = Some ((out @ display_text L s (log (db s) ! (msg_mapping s ! i)) @ [CHR 0x0A])
                 @ concat (map (\<lambda>k. display_text L s (log (db s) ! k) @ [CHR 0x0A])
                                 (drop (i + 1) (msg_mapping s))))"
      using "1.IH" [OF True d inr small] by simp
    also have "\<dots> = Some (out @ concat (map (\<lambda>k. display_text L s (log (db s) ! k) @ [CHR 0x0A])
                                 (drop i (msg_mapping s))))"
      using True by (simp add: Cons_nth_drop_Suc [symmetric])
    finally show ?thesis .
  next
    case False
    then show ?thesis
      by (subst saveTextFile_loop.simps) simp
  qed
qed

lemma saveTextFile_view:
  assumes "view_inv L s" "length (msg_mapping s) < 2 ^ 31"
  shows "saveTextFile L s =
           Some (concat (map (\<lambda>k. display_text L s (log (db s) ! k) @ [CHR 0x0A]) (msg_mapping s)))"
proof -
  have "list_all (\<lambda>k. k < length (log (db s))) (msg_mapping s)"
    using view_inv_accepted [OF assms(1)] by (simp add: list_all_iff)
  from saveTextFile_loop_view [OF this assms(2), of L 0 "[]"] show ?thesis
    by (simp add: saveTextFile_def)
qed

lemma enumerate_map_snd: "map (\<lambda>x. f (snd x)) (enumerate n xs) = map f xs"
  by (induction xs arbitrary: n) simp_all

lemma saveBagFile_all:
  "map (\<lambda>(tp, st, lg). log_msg lg) (saveBagFile now s) = map msg (log (db s))"
  by (simp add: saveBagFile_def bag_message_def Let_def enumerate_map_snd split_def comp_def)

lemma keeps_step_earliest:
  assumes "keeps_view x" "view_inv L s" "step L x s = Some t"
  shows "earliest_index t \<le> earliest_index s"
proof (cases x)
  case (StoreAppend es)
  then show ?thesis using assms(3) by (auto simp add: store_append_fields)
next
  case (StoreMinTime m)
  then show ?thesis using assms(3) by (auto simp add: store_minTime_def)
next
  case ProcessNew
  then show ?thesis using assms(3) by (auto simp add: processNew_fields)
next
  case ProcessOld
  then show ?thesis using processOld_inv [OF assms(2)] assms(3) by auto
next
  case IdleTimeout
  then show ?thesis using idle_timeout_inv [OF assms(2)] assms(3) by (auto split: if_splits)
next
  case MinTimeUpdated
  then show ?thesis using assms(3) by (auto simp add: setters_fields)
next
  case (SetAbsoluteTime b)
  then show ?thesis using assms(3) by (auto simp add: setters_fields)
next
  case (SetDisplayTime b)
  then show ?thesis using assms(3) by (auto simp add: setters_fields)
qed (use assms(1) in simp_all)

lemma keeps_run_earliest:
  "list_all keeps_view ops \<Longrightarrow> view_inv L s \<Longrightarrow> run L ops s = Some t \<Longrightarrow>
   earliest_index t \<le> earliest_index s"
proof (induction ops arbitrary: s)
  case Nil
  then show ?case by simp
next
  case (Cons x xs)
  from Cons.prems have kx: "keeps_view x" and kxs: "list_all keeps_view xs" by simp_all
  from keeps_step [OF kx Cons.prems(2)] obtain s1 where s1:
    "step L x s = Some s1" "view_inv L s1"
    by blast
  have "run L xs s1 = Some t" using Cons.prems(3) s1(1) by simp
  from Cons.IH [OF kxs s1(2) this] keeps_step_earliest [OF kx Cons.prems(2) s1(1)]
  show ?case by simp
qed

lemma run_append:
  "run L (xs @ ys) s = (case run L xs s of None \<Rightarrow> None | Some u \<Rightarrow> run L ys u)"
  by (induction xs arbitrary: s) (simp_all split: option.splits)

lemma processOld_early:
  assumes "earliest_index s \<le> length (log (db s))" "processOldMessages L s = Some t"
  shows "set (early_mapping t) \<subseteq> set (early_mapping s) \<union> {earliest_index s - 100 ..< earliest_index s}"
proof -
  have m: "earliest_index s - min 100 (earliest_index s) = earliest_index s - 100"
    by arith
  let ?P = "\<lambda>k. acceptLogEntry L s (log (db s) ! k)"
  define s1 where "s1 = s\<lparr>early_mapping :=
      filter ?P [earliest_index s - 100 ..< earliest_index s] @ early_mapping s,
      earliest_index := earliest_index s - 100\<rparr>"
  have loop: "processOldMessages_loop L 0 s = Some s1"
    using old_loop [OF assms(1), of L 0] by (simp add: m s1_def)
  have s1: "set (early_mapping s1) \<subseteq> set (early_mapping s) \<union> {earliest_index s - 100 ..< earliest_index s}"
    by (auto simp add: s1_def)
  show ?thesis
  proof (cases "(earliest_index s1 = 0 \<and> early_mapping s1 \<noteq> []) \<or> 200 < length (early_mapping s1)")
    case True
    then have "processOldMessages L s = Some (scheduleIdleProcessing
               (let s2 = emit (BeginInsertRows 0 (int_of_size_t (length (early_mapping s1) - 1))) s1;
                    s3 = s2\<lparr>msg_mapping := early_mapping s2 @ msg_mapping s2\<rparr>;
                    s4 = s3\<lparr>early_mapping := []\<rparr>;
                    s5 = emit EndInsertRows s4
                in emit MessagesAdded s5))"
      unfolding processOldMessages_def loop by (simp only: if_True option.case)
    then have "early_mapping t = []"
      using assms(2) by (auto simp add: scheduleIdleProcessing_def emit_def Let_def)
    then show ?thesis by simp
  next
    case False
    then have "processOldMessages L s = Some (scheduleIdleProcessing s1)"
      unfolding processOldMessages_def loop by (simp only: if_False option.case)
    then have "early_mapping t = early_mapping s1"
      using assms(2) by (auto simp add: scheduleIdleProcessing_def)
    then show ?thesis using s1 by simp
  qed
qed

lemma keeps_step_early:
  assumes "keeps_view x" "view_inv L s" "step L x s = Some t"
    "earliest_index s \<le> n" "\<forall>i \<in> set (early_mapping s). i < n"
  shows "\<forall>i \<in> set (early_mapping t). i < n"
proof (cases x)
  case (StoreAppend es)
  then show ?thesis using assms(3,5) by (auto simp add: store_append_fields)
next
  case (StoreMinTime m)
  then show ?thesis using assms(3,5) by (auto simp add: store_minTime_def)
next
  case ProcessNew
  then show ?thesis using assms(3,5) by (auto simp add: processNew_fields)
next
  case ProcessOld
  have le: "earliest_index s \<le> length (log (db s))"
    using assms(2) by (simp add: view_inv_def)
  from ProcessOld assms(3) have "processOldMessages L s = Some t" by simp
  from processOld_early [OF le this] assms(4,5) show ?thesis by auto
next
  case IdleTimeout
  show ?thesis
  proof (cases "idle_timers s = 0")
    case True
    then show ?thesis using IdleTimeout assms(3,5) by (simp add: idle_timeout_def)
  next
    case False
    let ?s = "s\<lparr>idle_timers := idle_timers s - 1\<rparr>"
    have le: "earliest_index ?s \<le> length (log (db ?s))"
      using assms(2) by (simp add: view_inv_def)
    from IdleTimeout assms(3) False have "processOldMessages L ?s = Some t"
      by (simp add: idle_timeout_def)
    from processOld_early [OF le this] assms(4,5) show ?thesis by auto
  qed
next
  case MinTimeUpdated
  then show ?thesis using assms(3,5) by (auto simp add: setters_fields)
next
  case (SetAbsoluteTime b)
  then show ?thesis using assms(3,5) by (auto simp add: setters_fields)
next
  case (SetDisplayTime b)
  then show ?thesis using assms(3,5) by (auto simp add: setters_fields)
qed (use assms(1) in simp_all)

lemma keeps_run_early:
  "list_all keeps_view ops \<Longrightarrow> view_inv L s \<Longrightarrow> run L ops s = Some t \<Longrightarrow>
   earliest_index s \<le> n \<Longrightarrow> \<forall>i \<in> set (early_mapping s). i < n \<Longrightarrow>
   \<forall>i \<in> set (early_mapping t). i < n"
proof (induction ops arbitrary: s)
  case Nil
  then show ?case by simp
next
  case (Cons x xs)
  from Cons.prems have kx: "keeps_view x" and kxs: "list_all keeps_view xs" by simp_all
  from keeps_step [OF kx Cons.prems(2)] obtain s1 where s1:
    "step L x s = Some s1" "view_inv L s1"
    by blast
  have r: "run L xs s1 = Some t" using Cons.prems(3) s1(1) by simp
  have e: "earliest_index s1 \<le> n"
    using keeps_step_earliest [OF kx Cons.prems(2) s1(1)] Cons.prems(4) by simp
  have a: "\<forall>i \<in> set (early_mapping s1). i < n"
    by (rule keeps_step_early [OF kx Cons.prems(2) s1(1) Cons.prems(4) Cons.prems(5)])
  show ?case by (rule Cons.IH [OF kxs s1(2) r e a])
qed

lemma forward_rows:
  assumes inv: "view_inv L t" and lat: "latest_index t = length (log (db t))"
    and lg: "log (db t) = xs @ es" and e: "earliest_index t \<le> length xs"
    and early: "\<forall>i \<in> set (early_mapping t). i < length xs"
  shows "length (msg_mapping t) =
           length (filter (acceptLogEntry L t) es)
           + length (filter (\<lambda>i. i < length xs) (msg_mapping t))"
proof -
  let ?n = "length xs"
  let ?P = "\<lambda>i. acceptLogEntry L t ((xs @ es) ! i)"
  let ?F1 = "filter ?P [earliest_index t ..< ?n]"
  let ?F2 = "filter ?P [?n ..< ?n + length es]"
  have "[earliest_index t ..< ?n + length es] = [earliest_index t ..< ?n] @ [?n ..< ?n + length es]"
    using e by (metis le_Suc_ex upt_add_eq_append le_add1)
  then have v: "early_mapping t @ msg_mapping t = ?F1 @ ?F2"
    using inv lat lg by (simp add: view_inv_def)
  have "filter (\<lambda>i. \<not> i < ?n) (early_mapping t @ msg_mapping t) = filter (\<lambda>i. \<not> i < ?n) (msg_mapping t)"
    using early by (simp add: filter_empty_conv)
  moreover have "filter (\<lambda>i. \<not> i < ?n) ?F1 = []"
    by (rule filter_False) auto
  moreover have "filter (\<lambda>i. \<not> i < ?n) ?F2 = ?F2"
    by (rule filter_True) auto
  ultimately have hi: "filter (\<lambda>i. \<not> i < ?n) (msg_mapping t) = ?F2"
    using v by (simp del: filter_filter)
  have "length (msg_mapping t) =
          length (filter (\<lambda>i. i < ?n) (msg_mapping t)) + length (filter (\<lambda>i. \<not> i < ?n) (msg_mapping t))"
    by (simp add: sum_length_filter_compl)
  also have "length (filter (\<lambda>i. \<not> i < ?n) (msg_mapping t)) = length (filter (acceptLogEntry L t) es)"
    unfolding hi by (rule length_filter_appended)
  finally show ?thesis by simp
qed

lemma view_inv_lower:
  assumes "view_inv L t"
  shows "\<forall>i \<in> set (msg_mapping t). earliest_index t \<le> i"
proof -
  have "set (msg_mapping t) \<subseteq> set (early_mapping t @ msg_mapping t)" by simp
  also have "\<dots> = set (filter (\<lambda>i. acceptLogEntry L t (log (db t) ! i)) [earliest_index t ..< latest_index t])"
    using assms by (simp add: view_inv_def)
  finally show ?thesis by auto
qed

lemma index_parent [simp]: "parent_isValid (index s r) = False"
  by (simp add: index_def QModelIndex0_def)

lemma index_out_of_range:
  "\<not> (0 \<le> r \<and> r < rowCount s QModelIndex0) \<Longrightarrow> index s r = QModelIndex0"
  by (auto simp add: index_def)

lemma data_unchecked:
  assumes "length (msg_mapping s) < 2 ^ 31" "\<not> parent_isValid idx"
    "- (2 ^ 31) \<le> row idx" "row idx < 2 ^ 31"
    "\<not> (0 \<le> row idx \<and> row idx < rowCount s QModelIndex0)"
  shows "data L s idx rl = None"
proof -
  have "length (msg_mapping s) \<le> size_t_of_int (row idx)"
  proof (cases "row idx < 0")
    case True
    from size_t_of_int_neg [OF True assms(3)] assms(1) show ?thesis by simp
  next
    case False
    then show ?thesis
      using assms(1,4,5) by (auto simp add: size_t_of_int_nat rowCount_small)
  qed
  then show ?thesis
    using assms(2) by (simp add: data_def deque_at_def)
qed

lemma data_index_out_of_range:
  assumes "length (msg_mapping s) < 2 ^ 31" "\<not> (0 \<le> r \<and> r < rowCount s QModelIndex0)"
  shows "data L s (index s r) rl = None"
proof -
  have i: "index s r = QModelIndex0" by (rule index_out_of_range [OF assms(2)])
  have "\<not> (0 \<le> row QModelIndex0 \<and> row QModelIndex0 < rowCount s QModelIndex0)"
    by (simp add: QModelIndex0_def)
  from data_unchecked [OF assms(1) _ _ _ this, of L rl] show ?thesis
    unfolding i by (simp add: QModelIndex0_def)
qed

section \<open>The claims\<close>

text \<open>
  C1. After backward catch-up has terminated (the backward cursor is zero), the filtered
  view holds exactly the store positions below the initial size that the predicate
  accepts, in ascending order, in front of whatever forward extension appended, without
  duplicates and without omissions. Here the model is reset over a store \<open>log (db s)\<close>
  and then any sequence of operations runs that neither resets the view nor changes the
  filter (the store may grow, both slots may run, timers may fire). The run has no
  out-of-range read, and whenever its final state has \<open>earliest_index = 0\<close> the view is
  the accepted positions of the initial store followed by the accepted positions from
  the initial size up to the forward cursor.
\<close>

theorem backward_catchup_complete:
  assumes "list_all keeps_view ops"
  shows "\<exists>t. run L ops (reset s) = Some t \<and>
           (earliest_index t = 0 \<longrightarrow>
              msg_mapping t =
                filter (\<lambda>i. acceptLogEntry L s (log (db s) ! i)) [0 ..< length (log (db s))]
                @ filter (\<lambda>i. acceptLogEntry L s (log (db t) ! i))
                    [length (log (db s)) ..< latest_index t]
              \<and> sorted_wrt (<) (msg_mapping t) \<and> distinct (msg_mapping t))"
proof -
  from keeps_run [OF assms reset_inv, of L s] obtain t es where t:
    "run L ops (reset s) = Some t" "view_inv L t" "same_filter t (reset s)"
    "latest_index (reset s) \<le> latest_index t" "log (db t) = log (db (reset s)) @ es"
    by blast
  let ?n = "length (log (db s))"
  have acc: "acceptLogEntry L t = acceptLogEntry L s"
    using same_filter_accept [OF t(3), of L] by simp
  have n: "?n \<le> latest_index t" using t(4) by (simp add: reset_fields)
  have lg: "log (db t) = log (db s) @ es" using t(5) by (simp add: reset_fields)
  have imp: "earliest_index t = 0 \<longrightarrow>
          msg_mapping t =
            filter (\<lambda>i. acceptLogEntry L s (log (db s) ! i)) [0 ..< ?n]
            @ filter (\<lambda>i. acceptLogEntry L s (log (db t) ! i)) [?n ..< latest_index t]
          \<and> sorted_wrt (<) (msg_mapping t) \<and> distinct (msg_mapping t)"
  proof
    assume e: "earliest_index t = 0"
    then have m: "msg_mapping t = filter (\<lambda>i. acceptLogEntry L s (log (db t) ! i)) [0 ..< latest_index t]"
      using t(2) acc by (auto simp add: view_inv_def)
    have "[0 ..< latest_index t] = [0 ..< ?n] @ [?n ..< latest_index t]"
      using n by (metis le_Suc_ex upt_add_eq_append zero_le)
    then have "msg_mapping t =
        filter (\<lambda>i. acceptLogEntry L s (log (db t) ! i)) [0 ..< ?n]
        @ filter (\<lambda>i. acceptLogEntry L s (log (db t) ! i)) [?n ..< latest_index t]"
      using m by simp
    moreover have "filter (\<lambda>i. acceptLogEntry L s (log (db t) ! i)) [0 ..< ?n]
        = filter (\<lambda>i. acceptLogEntry L s (log (db s) ! i)) [0 ..< ?n]"
      by (intro filter_cong refl) (simp add: lg nth_append)
    moreover have "sorted_wrt (<) (msg_mapping t)" by (rule view_inv_sorted [OF t(2)])
    moreover have "distinct (msg_mapping t)" unfolding m by simp
    ultimately show "msg_mapping t =
            filter (\<lambda>i. acceptLogEntry L s (log (db s) ! i)) [0 ..< ?n]
            @ filter (\<lambda>i. acceptLogEntry L s (log (db t) ! i)) [?n ..< latest_index t]
          \<and> sorted_wrt (<) (msg_mapping t) \<and> distinct (msg_mapping t)"
      by simp
  qed
  show ?thesis by (rule exI [of _ t]) (rule conjI [OF t(1) imp])
qed

theorem backward_catchup_complete_witness:
  "\<exists>t. run example_lib [StoreAppend [example_entry 4 ''A'' ''late'', example_entry 4 ''B'' ''other''],
              ProcessNew, IdleTimeout]
             (reset (example_model example_log)) = Some t
       \<and> earliest_index t = 0 \<and> msg_mapping t = [1, 2, 3]"
proof -
  let ?ops = "[StoreAppend [example_entry 4 ''A'' ''late'', example_entry 4 ''B'' ''other''], ProcessNew, IdleTimeout]"
  let ?s = "example_model example_log"
  let ?r = "run example_lib ?ops (reset ?s)"
  have k: "list_all keeps_view ?ops" by simp
  note c = ex_Some_the [OF backward_catchup_complete [OF k, of example_lib ?s]]
  have ev: "map_option (\<lambda>t. (earliest_index t, latest_index t, log (db t))) ?r
            = Some (0, 5, example_log @ [example_entry 4 ''A'' ''late'', example_entry 4 ''B'' ''other''])"
    by code_simp
  have t: "?r = Some (the ?r)" using c by (rule conjunct1)
  have e: "earliest_index (the ?r) = 0" and l: "latest_index (the ?r) = 5"
    and lg: "log (db (the ?r)) = example_log @ [example_entry 4 ''A'' ''late'', example_entry 4 ''B'' ''other'']"
    using ev by (simp_all add: t [symmetric] split: option.splits)
  have "msg_mapping (the ?r) =
          filter (\<lambda>i. acceptLogEntry example_lib ?s (log (db ?s) ! i)) [0 ..< length (log (db ?s))]
          @ filter (\<lambda>i. acceptLogEntry example_lib ?s (log (db (the ?r)) ! i))
              [length (log (db ?s)) ..< latest_index (the ?r)]"
    using conjunct2 [OF c] e by (rule_tac conjunct1) (erule mp)
  also have "\<dots> = [1, 2, 3]"
    unfolding l lg by code_simp
  finally show ?thesis using t e by metis
qed

text \<open>
  C2 (amended). For every sequence of appended records and a fixed filter configuration,
  while the view has fewer than \<open>2 ^ 31\<close> rows (the row count is a C \<^verbatim>\<open>int\<close>): after
  forward extension the row count is the number of accepted records among those appended
  since the reset, plus the number of backlog positions that catch-up has merged into the
  view. As long as no catch-up step has moved the backward cursor, which is always so
  over an empty backlog, it is the number of accepted appended records alone. The run
  after the reset is any sequence of operations that neither resets the view nor changes
  the filter, followed by \<^verbatim>\<open>processNewMessages\<close>.
\<close>

theorem forward_extension_row_count:
  assumes "list_all keeps_view ops"
  shows "\<exists>t. run L (ops @ [ProcessNew]) (reset s) = Some t \<and>
           (length (msg_mapping t) < 2 ^ 31 \<longrightarrow>
              rowCount t QModelIndex0 =
                int (length (filter (acceptLogEntry L s) (drop (length (log (db s))) (log (db t)))))
                + int (length (filter (\<lambda>i. i < length (log (db s))) (msg_mapping t)))
              \<and> (earliest_index t = length (log (db s)) \<longrightarrow>
                   rowCount t QModelIndex0 =
                     int (length (filter (acceptLogEntry L s)
                                    (drop (length (log (db s))) (log (db t)))))))"
proof -
  let ?n = "length (log (db s))"
  from keeps_run [OF assms reset_inv, of L s] obtain u es where u:
    "run L ops (reset s) = Some u" "view_inv L u" "same_filter u (reset s)"
    "log (db u) = log (db (reset s)) @ es"
    by blast
  let ?t = "processNewMessages L u"
  have r: "run L (ops @ [ProcessNew]) (reset s) = Some ?t"
    using u(1) by (simp add: run_append)
  have inv: "view_inv L ?t" by (rule processNew_inv [OF u(2)])
  have acc: "acceptLogEntry L ?t = acceptLogEntry L s"
    using same_filter_accept [OF u(3), of L] by simp
  have lg: "log (db ?t) = log (db s) @ es"
    using u(4) by (simp add: processNew_fields reset_fields)
  have lat: "latest_index ?t = length (log (db ?t))"
    using u(2) by (simp add: processNew_fields view_inv_def max_def)
  have eu: "earliest_index u \<le> ?n"
    using keeps_run_earliest [OF assms reset_inv u(1)] by (simp add: reset_fields)
  have e: "earliest_index ?t \<le> ?n"
    using eu by (simp add: processNew_fields)
  have "\<forall>i \<in> set (early_mapping u). i < ?n"
    by (rule keeps_run_early [OF assms reset_inv u(1)]) (simp_all add: reset_fields)
  then have early: "\<forall>i \<in> set (early_mapping ?t). i < ?n"
    by (simp add: processNew_fields)
  have len: "length (msg_mapping ?t) =
               length (filter (acceptLogEntry L s) es)
               + length (filter (\<lambda>i. i < ?n) (msg_mapping ?t))"
    using forward_rows [OF inv lat lg e early] unfolding acc .
  have dr: "drop ?n (log (db ?t)) = es" by (simp add: lg)
  have none: "earliest_index ?t = ?n \<Longrightarrow> filter (\<lambda>i. i < ?n) (msg_mapping ?t) = []"
    using view_inv_lower [OF inv] by (auto simp add: filter_empty_conv)
  have "length (msg_mapping ?t) < 2 ^ 31 \<longrightarrow>
              rowCount ?t QModelIndex0 =
                int (length (filter (acceptLogEntry L s) (drop ?n (log (db ?t)))))
                + int (length (filter (\<lambda>i. i < ?n) (msg_mapping ?t)))
              \<and> (earliest_index ?t = ?n \<longrightarrow>
                   rowCount ?t QModelIndex0 =
                     int (length (filter (acceptLogEntry L s) (drop ?n (log (db ?t))))))"
  proof (intro impI conjI)
    assume b: "length (msg_mapping ?t) < 2 ^ 31"
    show c: "rowCount ?t QModelIndex0 =
                int (length (filter (acceptLogEntry L s) (drop ?n (log (db ?t)))))
                + int (length (filter (\<lambda>i. i < ?n) (msg_mapping ?t)))"
      unfolding rowCount_small [OF b] dr using len by simp
    assume "earliest_index ?t = ?n"
    from none [OF this] c
    show "rowCount ?t QModelIndex0 =
            int (length (filter (acceptLogEntry L s) (drop ?n (log (db ?t)))))"
      by simp
  qed
  with r show ?thesis by (intro exI [of _ ?t] conjI)
qed

theorem forward_extension_row_count_witness:
  "rowCount example_late_view QModelIndex0 = 3 \<and>
   rowCount (the (run example_lib ([StoreAppend [example_entry 4 ''A'' ''late'']] @ [ProcessNew])
                    (reset (example_model example_log)))) QModelIndex0 = 1"
proof -
  let ?late = "example_entry 4 ''A'' ''late''"
  let ?s = "example_model example_log"
  let ?a = "[IdleTimeout, StoreAppend [?late]]"
  let ?b = "[StoreAppend [?late]]"
  define ta where "ta = the (run example_lib (?a @ [ProcessNew]) (reset ?s))"
  define tb where "tb = the (run example_lib (?b @ [ProcessNew]) (reset ?s))"
  have ka: "list_all keeps_view ?a" and kb: "list_all keeps_view ?b" by simp_all
  note ca = conjunct2 [OF ex_Some_the [OF forward_extension_row_count [OF ka, of example_lib ?s]],
              folded ta_def]
  note cb = conjunct2 [OF ex_Some_the [OF forward_extension_row_count [OF kb, of example_lib ?s]],
              folded tb_def]
  have va: "example_late_view = ta" unfolding ta_def example_late_view_def by simp
  have ma: "msg_mapping ta = [1, 2, 3]" unfolding ta_def by code_simp
  have mb: "msg_mapping tb = [3]" unfolding tb_def by code_simp
  have eb: "earliest_index tb = 3" unfolding tb_def by code_simp
  have n: "length (log (db ?s)) = 3" by code_simp
  have da: "drop 3 (log (db ta)) = [?late]" unfolding ta_def by code_simp
  have db: "drop 3 (log (db tb)) = [?late]" unfolding tb_def by code_simp
  have acc: "filter (acceptLogEntry example_lib ?s) [?late] = [?late]" by code_simp
  have "rowCount ta QModelIndex0 = 3"
    using ca unfolding n da acc ma by simp
  moreover have "rowCount tb QModelIndex0 = 1"
    using cb unfolding n db acc mb eb by simp
  ultimately show ?thesis unfolding va tb_def by simp
qed

text \<open>
  C2 as stated fails: over the three entries one timer is delivered, which merges the two
  accepted entries of the backlog; then one accepted record is appended and forward
  extension runs. The row count is 3, and one accepted record has been appended from the
  initial forward cursor onward.
\<close>

theorem forward_extension_row_count_counterexample:
  "run example_lib [IdleTimeout, StoreAppend [example_entry 4 ''A'' ''late''], ProcessNew]
       (reset (example_model example_log)) = Some example_late_view \<and>
   rowCount example_late_view QModelIndex0 = 3 \<and>
   length (filter (acceptLogEntry example_lib example_late_view)
             (drop (latest_index (reset (example_model example_log)))
                (log (db example_late_view)))) = 1"
  by code_simp

text \<open>
  C3. The predicate accepts a record exactly when its level has a bit in common with the
  severity mask, its node name is in the set of accepted names (so an empty set rejects
  every record), the include rule passes (pattern mode: the include pattern matches;
  text mode: the include list is empty or some include string occurs in the message,
  ignoring case) and the exclude rule passes (pattern mode: the exclude pattern is empty
  or does not match; text mode: no exclude string occurs in the message). The four tests
  stand in the order in which the source makes them.
\<close>

theorem acceptLogEntry_iff:
  "acceptLogEntry L s item \<longleftrightarrow>
     level item AND severity_mask s \<noteq> 0 \<and>
     node item \<in> names s \<and>
     (if use_regular_expressions s
      then 0 \<le> regexp_indexIn L (include_regexp s) (msg item)
      else include_strings s = [] \<or> (\<exists>t \<in> set (include_strings s). contains_ci L (msg item) t)) \<and>
     (if use_regular_expressions s
      then exclude_regexp s = [] \<or> regexp_indexIn L (exclude_regexp s) (msg item) < 0
      else \<forall>t \<in> set (exclude_strings s). \<not> contains_ci L (msg item) t)"
  by (simp add: acceptLogEntry_def testIncludeFilter_def list_ex_iff)

theorem acceptLogEntry_iff_witness:
  "acceptLogEntry example_lib ((example_model [])\<lparr>include_strings := [''timeout''], exclude_strings := [''disk'']\<rparr>)
     (example_entry 4 ''A'' ''Connection Timeout occurred'')
   \<and> \<not> acceptLogEntry example_lib ((example_model [])\<lparr>include_strings := [''timeout''], exclude_strings := [''disk'']\<rparr>)
     (example_entry 4 ''A'' ''Disk timeout'')"
proof -
  let ?s = "(example_model [])\<lparr>include_strings := [''timeout''], exclude_strings := [''disk'']\<rparr>"
  let ?a = "example_entry 4 ''A'' ''Connection Timeout occurred''"
  let ?b = "example_entry 4 ''A'' ''Disk timeout''"
  have a: "level ?a AND severity_mask ?s \<noteq> 0 \<and> node ?a \<in> names ?s \<and>
     (if use_regular_expressions ?s
      then 0 \<le> regexp_indexIn example_lib (include_regexp ?s) (msg ?a)
      else include_strings ?s = [] \<or> (\<exists>t \<in> set (include_strings ?s). contains_ci example_lib (msg ?a) t)) \<and>
     (if use_regular_expressions ?s
      then exclude_regexp ?s = [] \<or> regexp_indexIn example_lib (exclude_regexp ?s) (msg ?a) < 0
      else \<forall>t \<in> set (exclude_strings ?s). \<not> contains_ci example_lib (msg ?a) t)"
    by code_simp
  have b: "\<not> (\<forall>t \<in> set (exclude_strings ?s). \<not> contains_ci example_lib (msg ?b) t)"
    by code_simp
  have u: "\<not> use_regular_expressions ?s" by (simp add: example_model_def)
  show ?thesis
    using a b u acceptLogEntry_iff [of example_lib ?s ?a] acceptLogEntry_iff [of example_lib ?s ?b]
    by simp
qed

text \<open>
  C4. For every position outside the view the row lookup should signal an out-of-bounds
  condition, and for every position of the view it reads the store at
  \<open>msg_mapping ! position\<close>. The code does the second (\<open>data_in_range\<close>) and attempts
  the first, but its range guard only applies to an index with a valid parent, which no
  index of this list model has: through every index of the model an out-of-range lookup
  reads the deque unchecked (\<open>data_index_out_of_range\<close>). At the state below the view
  has two rows, \<^verbatim>\<open>index(7)\<close> is \<^verbatim>\<open>QModelIndex()\<close> with row \<open>-1\<close>, and the
  lookup through it, like the lookup through a stale index of row 7, is undefined
  behaviour.
\<close>

theorem row_lookup_out_of_range_unchecked:
  "rowCount example_view QModelIndex0 = 2 \<and>
   index example_view 7 = QModelIndex0 \<and>
   data example_lib example_view (index example_view 7) DisplayRole = None \<and>
   data example_lib example_view \<lparr>isValid = True, row = 7, parent_isValid = False\<rparr> DisplayRole = None"
proof -
  have c: "rowCount example_view QModelIndex0 = 2" by code_simp
  have m: "length (msg_mapping example_view) < 2 ^ 31"
  proof -
    have "msg_mapping example_view = [1, 2]" by code_simp
    then show ?thesis by simp
  qed
  have o: "\<not> (0 \<le> (7::int) \<and> 7 < rowCount example_view QModelIndex0)" by (simp add: c)
  have i: "index example_view 7 = QModelIndex0" by (rule index_out_of_range [OF o])
  have a: "data example_lib example_view (index example_view 7) DisplayRole = None"
    by (rule data_index_out_of_range [OF m o])
  have b: "data example_lib example_view \<lparr>isValid = True, row = 7, parent_isValid = False\<rparr> DisplayRole = None"
    by (rule data_unchecked [OF m]) (simp_all add: c)
  show ?thesis using c i a b by simp
qed

text \<open>
  C5 (amended). A malformed include pattern is applied like any other: the pattern is
  stored and the view is reset, so that afterwards the row count is zero and both
  cursors are at the size of the store. \<^verbatim>\<open>isIncludeValid\<close> then returns false exactly
  when pattern mode is on; in text mode it returns true.
\<close>

theorem malformed_include_pattern:
  assumes "\<not> regexp_isValid L p"
  shows "isIncludeValid L (setIncludeRegexpPattern p s) = (\<not> use_regular_expressions s) \<and>
         include_regexp (setIncludeRegexpPattern p s) = p \<and>
         rowCount (setIncludeRegexpPattern p s) QModelIndex0 = 0 \<and>
         earliest_index (setIncludeRegexpPattern p s) = length (log (db s)) \<and>
         latest_index (setIncludeRegexpPattern p s) = length (log (db s))"
proof -
  have f: "include_regexp (reset (s\<lparr>include_regexp := p\<rparr>)) = p"
    "use_regular_expressions (reset (s\<lparr>include_regexp := p\<rparr>)) = use_regular_expressions s"
    using reset_fields(6) [of "s\<lparr>include_regexp := p\<rparr>"] by (simp_all add: same_filter_def)
  show ?thesis
    using assms
    by (simp add: setIncludeRegexpPattern_def isIncludeValid_def rowCount_def QModelIndex0_def f
          reset_fields int_of_size_t_def)
qed

theorem malformed_include_pattern_witness:
  "\<not> regexp_isValid example_lib ''(a'' \<and>
   isIncludeValid example_lib (setIncludeRegexpPattern ''(a'' example_view) \<and>
   \<not> isIncludeValid example_lib (setIncludeRegexpPattern ''(a'' example_regexp_view) \<and>
   rowCount (setIncludeRegexpPattern ''(a'' example_view) QModelIndex0 = 0"
proof -
  have h: "\<not> regexp_isValid example_lib ''(a''" by code_simp
  have u: "\<not> use_regular_expressions example_view" "use_regular_expressions example_regexp_view"
    by code_simp+
  show ?thesis
    using h u malformed_include_pattern [OF h, of example_view]
      malformed_include_pattern [OF h, of example_regexp_view]
    by simp
qed

text \<open>
  C5 as stated fails: in pattern mode, with two rows in the view, setting a malformed
  include pattern leaves no row.
\<close>

theorem malformed_include_pattern_counterexample:
  "\<not> regexp_isValid example_lib ''(a'' \<and>
   rowCount example_regexp_view QModelIndex0 = 2 \<and>
   rowCount (setIncludeRegexpPattern ''(a'' example_regexp_view) QModelIndex0 = 0"
  by code_simp

text \<open>
  C6. At every point reachable by any sequence of engine operations, the filtered view is a
  strictly increasing sequence of store indices, each of which satisfied the predicate
  when it was admitted. Starting from any model that has just been reset, every sequence
  of operations runs without an out-of-range read to a state whose view \<open>msg_mapping\<close>
  is strictly increasing and holds only positions of the log whose entries the filter
  accepts. The filter of that state is the one under which the positions were admitted:
  every operation that changes the filter empties the view, and the store only appends.
\<close>

theorem view_strictly_increasing_accepted:
  "\<exists>t. run L ops (reset s) = Some t \<and> sorted_wrt (<) (msg_mapping t) \<and>
        list_all (\<lambda>i. i < length (log (db t)) \<and> acceptLogEntry L t (log (db t) ! i)) (msg_mapping t)"
proof -
  from run_inv [OF reset_inv] obtain t where "run L ops (reset s) = Some t" "view_inv L t"
    by blast
  then show ?thesis
    using view_inv_sorted view_inv_accepted by blast
qed

text \<open>
  C7. Over a backlog of \<open>N\<close> records, every catch-up step lowers the backward cursor by
  100, or to zero when fewer positions remain, whatever the filter accepts. After a
  reset and \<open>k\<close> deliveries of the idle timer the cursor is \<open>N - 100 * k\<close>, so it is
  zero exactly from the \<open>\<lceil>N / 100\<rceil>\<close>-th delivery on. While \<open>100 * k < N\<close> one step
  is queued on top of the timers that were already queued before the reset, so each of
  the first \<open>\<lceil>N / 100\<rceil>\<close> deliveries calls \<^verbatim>\<open>processOldMessages\<close>; once the cursor
  is zero no step is scheduled any more: only timers from before the reset remain, and
  each later delivery uses one up without queuing another.
\<close>

theorem catchup_terminates:
  "\<exists>t. run L (replicate k IdleTimeout) (reset s) = Some t \<and>
        earliest_index t = length (log (db s)) - 100 * k \<and>
        (earliest_index t = 0 \<longleftrightarrow> (length (log (db s)) + 99) div 100 \<le> k) \<and>
        idle_timers t =
          (if 100 * k < length (log (db s)) then idle_timers s + 1
           else idle_timers s - (k - (length (log (db s)) + 99) div 100))"
proof -
  have "0 < earliest_index (reset s) \<longrightarrow> 0 < idle_timers (reset s)"
    by (simp add: reset_fields)
  from idle_run_stale [OF reset_inv this, of L k] obtain t where t:
    "run L (replicate k IdleTimeout) (reset s) = Some t"
    "earliest_index t = earliest_index (reset s) - 100 * k"
    "idle_timers t =
       (if 100 * k < earliest_index (reset s) then idle_timers (reset s)
        else idle_timers (reset s) - (k - (earliest_index (reset s) + 99) div 100)
             - (if 0 < earliest_index (reset s) then 1 else 0))"
    by blast
  have e: "earliest_index t = length (log (db s)) - 100 * k"
    using t(2) by (simp add: reset_fields)
  have c: "earliest_index t = 0 \<longleftrightarrow> (length (log (db s)) + 99) div 100 \<le> k"
    unfolding e by arith
  have i: "idle_timers t =
          (if 100 * k < length (log (db s)) then idle_timers s + 1
           else idle_timers s - (k - (length (log (db s)) + 99) div 100))"
    using t(3) by (simp add: reset_fields)
  show ?thesis
    by (rule exI [of _ t]) (intro conjI t(1) e c i)
qed

theorem catchup_terminates_witness:
  "\<exists>t. run example_lib (replicate 1 IdleTimeout) (reset (example_model example_log)) = Some t
      \<and> earliest_index t = 0 \<and> idle_timers t = 0 \<and> msg_mapping t = [1, 2]"
proof -
  let ?r = "run example_lib (replicate 1 IdleTimeout) (reset (example_model example_log))"
  note c = ex_Some_the [OF catchup_terminates [of example_lib 1 "example_model example_log"]]
  have n: "length (log (db (example_model example_log))) = 3" by code_simp
  have z: "idle_timers (example_model example_log) = 0" by code_simp
  have t: "?r = Some (the ?r)" using c by (rule conjunct1)
  have e: "earliest_index (the ?r) = 0" using conjunct2 [OF c] by (simp add: n)
  have i: "idle_timers (the ?r) = 0" using conjunct2 [OF c] by (simp add: n z)
  have m: "msg_mapping (the ?r) = [1, 2]" by code_simp
  show ?thesis using t e i m by metis
qed

text \<open>
  C8. Every export variant passes over exactly the rows of the filtered view. The text
  export does; the bag export iterates the whole log of the store instead. At the state
  below the view has two rows, the text file gets their two lines, and the bag gets three
  messages, the INFO entry rejected by the filter among them.
\<close>

theorem saveBagFile_writes_whole_store:
  "rowCount example_view QModelIndex0 = 2 \<and>
   saveTextFile example_lib example_view =
     Some (''[W] Connection Timeout occurred'' @ [CHR 0x0A] @ ''[E] failed'' @ [CHR 0x0A]) \<and>
   map (\<lambda>(tp, st, lg). log_msg lg) (saveBagFile (\<lambda>k. \<lparr>sec = 9, nsec = 0\<rparr>) example_view) =
     [''all good'', ''Connection Timeout occurred'', ''failed'']"
  by code_simp

text \<open>
  C9. Calling \<^verbatim>\<open>processNewMessages\<close> when the store has not grown since the last call
  is a no-op: the second of two successive calls leaves the whole model unchanged, the
  view, the forward cursor and the signals emitted included. A call appends to the view
  exactly the accepted positions from the forward cursor to the end of the log, each
  once, so that repeated calls neither duplicate nor drop a position.
\<close>

theorem processNewMessages_idempotent:
  "processNewMessages L (processNewMessages L s) = processNewMessages L s \<and>
   msg_mapping (processNewMessages L s) =
     msg_mapping s @ filter (\<lambda>i. acceptLogEntry L s (log (db s) ! i))
                       [latest_index s ..< length (log (db s))]"
proof -
  have "length (log (db (processNewMessages L s))) \<le> latest_index (processNewMessages L s)"
    by (simp add: processNew_fields)
  then show ?thesis
    by (simp add: processNew_noop processNew_fields)
qed



end
